theory Spec2Isabelle
  imports Main
begin

section \<open>Strings, runes and the Unicode predicates\<close>

text \<open>
  A Go string is modelled by the sequence of its code points (\<open>rune\<close>s).  Every string
  the program handles is read from a parsed source file or from the command line and is
  taken to be valid UTF-8, so that the conversion \<^verbatim>\<open>[]rune(s)\<close> and its inverse
  \<^verbatim>\<open>string(runes)\<close> are the identity on the model and only the indexing \<^verbatim>\<open>s[0]\<close>,
  which reads one byte, has to look at the encoding.
\<close>

type_synonym rune = nat
type_synonym gostring = "rune list"

definition str :: "string \<Rightarrow> gostring" where
  "str s = map of_char s"

text \<open>
  The tables of package \<^verbatim>\<open>unicode\<close> for the code points that the library does not
  handle by a fast path are a parameter of the development: \<^verbatim>\<open>isExcludingLatin(Upper, r)\<close>, 
  \<^verbatim>\<open>isExcludingLatin(Lower, r)\<close>, \<^verbatim>\<open>To(LowerCase, r)\<close> and \<^verbatim>\<open>To(UpperCase, r)\<close>.
\<close>

record unicode_tables =
  Upper_table :: "rune \<Rightarrow> bool"
  Lower_table :: "rune \<Rightarrow> bool"
  LowerCase :: "rune \<Rightarrow> rune"
  UpperCase :: "rune \<Rightarrow> rune"

text \<open>
  Tables with nothing beyond the fast paths, to evaluate the program on ASCII text, where the
  library never consults its tables.  They are not the tables of the library: with them
  \<open>IsUpper\<close> and \<open>IsLower\<close> are those of the library up to U+00FF only, and \<open>ToLower\<close> and
  \<open>ToUpper\<close> up to U+007F only (the library maps the letters of Latin-1 above U+007F
  through \<open>LowerCase\<close> and \<open>UpperCase\<close>, which are the identity here).
\<close>

definition fast_paths_only :: unicode_tables where
  "fast_paths_only =
     \<lparr>Upper_table = (\<lambda>r. False), Lower_table = (\<lambda>r. False),
      LowerCase = (\<lambda>r. r), UpperCase = (\<lambda>r. r)\<rparr>"

definition MaxASCII :: rune where "MaxASCII = 0x7F"
definition MaxLatin1 :: rune where "MaxLatin1 = 0xFF"

text \<open>\<^verbatim>\<open>unicode.IsUpper\<close>: the Latin-1 range is decided by the library's property table.\<close>

definition IsUpper :: "unicode_tables \<Rightarrow> rune \<Rightarrow> bool" where
  "IsUpper U r =
     (if r \<le> MaxLatin1
      then (0x41 \<le> r \<and> r \<le> 0x5A) \<or> (0xC0 \<le> r \<and> r \<le> 0xD6) \<or> (0xD8 \<le> r \<and> r \<le> 0xDE)
      else Upper_table U r)"

definition IsLower :: "unicode_tables \<Rightarrow> rune \<Rightarrow> bool" where
  "IsLower U r =
     (if r \<le> MaxLatin1
      then (0x61 \<le> r \<and> r \<le> 0x7A) \<or> r = 0xB5 \<or> (0xDF \<le> r \<and> r \<le> 0xF6) \<or> (0xF8 \<le> r \<and> r \<le> 0xFF)
      else Lower_table U r)"

definition ToLower :: "unicode_tables \<Rightarrow> rune \<Rightarrow> rune" where
  "ToLower U r =
     (if r \<le> MaxASCII
      then (if 0x41 \<le> r \<and> r \<le> 0x5A then r + 0x20 else r)
      else LowerCase U r)"

definition ToUpper :: "unicode_tables \<Rightarrow> rune \<Rightarrow> rune" where
  "ToUpper U r =
     (if r \<le> MaxASCII
      then (if 0x61 \<le> r \<and> r \<le> 0x7A then r - 0x20 else r)
      else UpperCase U r)"

section \<open>Case converters\<close>

text \<open>
  What stops a call short of its result.  \<open>IndexOutOfRange\<close> is the run-time panic of an
  index expression.  \<open>RegexpNotModelled\<close> stands for a tag name that holds a regexp
  metacharacter: the program interpolates the name into a pattern without quoting it, so that
  \<^verbatim>\<open>regexp.MustCompile\<close> either panics or compiles a pattern other than the literal
  name; this development interprets literal names only.
\<close>

datatype failure = IndexOutOfRange | RegexpNotModelled

text \<open>\<^verbatim>\<open>ToSnake\<close>: one pass over the indices, appending to \<open>out\<close>.\<close>

definition snake_step :: "unicode_tables \<Rightarrow> rune list \<Rightarrow> rune list \<Rightarrow> nat \<Rightarrow> rune list" where
  "snake_step U runes out i =
     (let out' =
        (if i > 0 \<and> IsUpper U (runes ! i) \<and>
            ((i + 1 < length runes \<and> IsLower U (runes ! (i + 1))) \<or> IsLower U (runes ! (i - 1)))
         then out @ [0x5F] else out)
      in out' @ [ToLower U (runes ! i)])"

definition ToSnake :: "unicode_tables \<Rightarrow> gostring \<Rightarrow> gostring" where
  "ToSnake U inp = foldl (snake_step U inp) [] [0..<length inp]"

text \<open>
  \<^verbatim>\<open>ToCamel\<close>: the first loop lower-cases in place until it meets a lower-case rune and
  leaves its index in \<open>i\<close>; the decrement of \<open>i = 0\<close> makes the index \<open>-1\<close>, where the
  assignment panics.
\<close>

function camel_loop :: "unicode_tables \<Rightarrow> rune list \<Rightarrow> nat \<Rightarrow> rune list \<times> nat" where
  "camel_loop U runes i =
     (if i < length runes
      then (if IsLower U (runes ! i) then (runes, i)
            else camel_loop U (runes[i := ToLower U (runes ! i)]) (i + 1))
      else (runes, i))"
  by pat_completeness auto
termination
  by (relation "measure (\<lambda>(U, runes, i). length runes - i)") auto

declare camel_loop.simps [simp del]

definition ToCamel :: "unicode_tables \<Rightarrow> gostring \<Rightarrow> failure + gostring" where
  "ToCamel U inp =
     (case camel_loop U inp 0 of (runes, i) \<Rightarrow>
        if i \<noteq> 1 \<and> i \<noteq> length runes
        then (if i = 0 then Inl IndexOutOfRange
              else Inr (runes[i - 1 := ToUpper U (runes ! (i - 1))]))
        else Inr runes)"

text \<open>
  The specification's wording of the camel converter, to compare with \<open>ToCamel\<close>: the
  leading run of upper-case letters is lower-cased and, unless the run has length one or is
  the whole identifier, the character right after the run is upper-cased.
\<close>

definition upper_run :: "unicode_tables \<Rightarrow> gostring \<Rightarrow> nat" where
  "upper_run U s = length (takeWhile (IsUpper U) s)"

definition toCamel_spec :: "unicode_tables \<Rightarrow> gostring \<Rightarrow> gostring" where
  "toCamel_spec U s =
     (let n = upper_run U s; lowered = map (ToLower U) (take n s) @ drop n s in
      if n = 1 \<or> n = length s then lowered else lowered[n := ToUpper U (lowered ! n)])"

section \<open>Packages \<^verbatim>\<open>strings\<close> and \<^verbatim>\<open>regexp\<close>\<close>

definition quote :: rune where "quote = 0x22"
definition colon :: rune where "colon = 0x3A"
definition backtick :: rune where "backtick = 0x60"
definition space :: rune where "space = 0x20"

text \<open>\<^verbatim>\<open>unicode.IsSpace\<close>: the code points with the property White_Space.\<close>

definition IsSpace :: "rune \<Rightarrow> bool" where
  "IsSpace r =
     ((0x09 \<le> r \<and> r \<le> 0x0D) \<or> r = 0x20 \<or> r = 0x85 \<or> r = 0xA0 \<or> r = 0x1680 \<or>
      (0x2000 \<le> r \<and> r \<le> 0x200A) \<or> r = 0x2028 \<or> r = 0x2029 \<or> r = 0x202F \<or>
      r = 0x205F \<or> r = 0x3000)"

text \<open>
  \<^verbatim>\<open>strings.Fields\<close>: \<open>cur\<close> is the field being read (empty when none has started).
\<close>

fun Fields_from :: "gostring \<Rightarrow> gostring \<Rightarrow> gostring list" where
  "Fields_from cur [] = (if cur = [] then [] else [cur])"
| "Fields_from cur (c # cs) =
     (if IsSpace c
      then (if cur = [] then Fields_from [] cs else cur # Fields_from [] cs)
      else Fields_from (cur @ [c]) cs)"

definition Fields :: "gostring \<Rightarrow> gostring list" where
  "Fields s = Fields_from [] s"

definition Trim :: "gostring \<Rightarrow> gostring \<Rightarrow> gostring" where
  "Trim s cutset =
     rev (dropWhile (\<lambda>c. c \<in> set cutset) (rev (dropWhile (\<lambda>c. c \<in> set cutset) s)))"

fun Join :: "gostring list \<Rightarrow> gostring \<Rightarrow> gostring" where
  "Join [] sep = []"
| "Join [x] sep = x"
| "Join (x # y # ys) sep = x @ sep @ Join (y # ys) sep"

text \<open>
  The pattern \<^verbatim>\<open>fmt.Sprintf("%s:\"[^\"]+\"", tag.Tag)\<close>.  The characters that
  \<^verbatim>\<open>regexp.QuoteMeta\<close> escapes are the metacharacters; a name without them is a
  literal of the pattern.
\<close>

definition regexp_special :: "rune list" where
  "regexp_special = str [CHR 0x5C, CHR ''.'', CHR ''+'', CHR ''*'', CHR ''?'', CHR ''('', CHR '')'',
     CHR ''|'', CHR ''['', CHR '']'', CHR ''{'', CHR ''}'', CHR ''^'', CHR ''$'']"

definition literal_name :: "gostring \<Rightarrow> bool" where
  "literal_name t = (\<forall>c \<in> set t. c \<notin> set regexp_special)"

text \<open>
  The match of the pattern at the head of \<open>s\<close>: the name, a colon, a quote, one or more
  runes other than the quote (as many as there are), and a quote.
\<close>

definition match_here :: "gostring \<Rightarrow> gostring \<Rightarrow> gostring option" where
  "match_here lit s =
     (let p = lit @ [colon, quote] in
      if take (length p) s = p
      then (let rest = drop (length p) s; v = takeWhile (\<lambda>c. c \<noteq> quote) rest in
            if v \<noteq> [] \<and> length v < length rest then Some (p @ v @ [quote]) else None)
      else None)"

text \<open>\<^verbatim>\<open>FindString\<close>: the leftmost match, or the empty string when there is none.\<close>

fun FindString :: "gostring \<Rightarrow> gostring \<Rightarrow> gostring" where
  "FindString lit [] = []"
| "FindString lit (c # cs) =
     (case match_here lit (c # cs) of Some m \<Rightarrow> m | None \<Rightarrow> FindString lit cs)"

section \<open>The tag synthesizer\<close>

record TagOpt =
  Tag :: gostring
  Case :: gostring

definition case_camel :: gostring where "case_camel = str ''camel''"
definition case_snake :: gostring where "case_snake = str ''snake''"
definition case_pascal :: gostring where "case_pascal = str ''pascal''"

text \<open>
  The \<^verbatim>\<open>switch tag.Case\<close>: the name for the segment and what is printed.  The default
  branch prints and leaves \<open>name\<close> at its zero value, the empty string.
\<close>

definition case_name :: "unicode_tables \<Rightarrow> gostring \<Rightarrow> gostring \<Rightarrow> failure + (gostring \<times> gostring list)" where
  "case_name U c fieldName =
     (if c = case_snake then Inr (ToSnake U fieldName, [])
      else if c = case_camel then
        (case ToCamel U fieldName of Inl e \<Rightarrow> Inl e | Inr n \<Rightarrow> Inr (n, []))
      else if c = case_pascal then Inr (fieldName, [])
      else Inr ([], [str ''Unknown case option '' @ c]))"

text \<open>\<^verbatim>\<open>fmt.Sprintf(tplStr, tag.Tag, name)\<close> for the two templates.\<close>

definition segment :: "bool \<Rightarrow> gostring \<Rightarrow> gostring \<Rightarrow> gostring" where
  "segment omitempty t name =
     (if omitempty then t @ [colon, quote] @ name @ str '',omitempty'' @ [quote]
      else t @ [colon, quote] @ name @ [quote])"

text \<open>
  The loop over the requests of \<^verbatim>\<open>parseTags\<close>, with what it prints and the
  \<open>tagValues\<close> it collects.  \<open>gFlagOmitempty\<close> is the parameter \<open>omitempty\<close>.
\<close>

fun tags_loop ::
  "unicode_tables \<Rightarrow> bool \<Rightarrow> gostring \<Rightarrow> gostring \<Rightarrow> TagOpt list \<Rightarrow>
     gostring list \<times> gostring list \<Rightarrow> failure + (gostring list \<times> gostring list)" where
  "tags_loop U omitempty fieldName tagValue [] acc = Inr acc"
| "tags_loop U omitempty fieldName tagValue (tag # tags) (printed, tagValues) =
     (if \<not> literal_name (Tag tag) then Inl RegexpNotModelled
      else if FindString (Tag tag) tagValue = [] then
        (case case_name U (Case tag) fieldName of
           Inl e \<Rightarrow> Inl e
         | Inr (name, out) \<Rightarrow>
             tags_loop U omitempty fieldName tagValue tags
               (printed @ out, tagValues @ [segment omitempty (Tag tag) name]))
      else tags_loop U omitempty fieldName tagValue tags (printed, tagValues))"

text \<open>
  \<^verbatim>\<open>parseTags\<close>, from the field's first name and the \<open>Value\<close> of its tag literal: what
  is printed and the new value.
\<close>

definition parseTags ::
  "unicode_tables \<Rightarrow> bool \<Rightarrow> gostring \<Rightarrow> gostring \<Rightarrow> TagOpt list \<Rightarrow>
     failure + (gostring list \<times> gostring)" where
  "parseTags U omitempty fieldName tagValue tags =
     (case tags_loop U omitempty fieldName tagValue tags ([], []) of
        Inl e \<Rightarrow> Inl e
      | Inr (printed, tagValues) \<Rightarrow>
          (let updatedTags = Fields (Trim tagValue [backtick]);
               updatedTags = (if length tagValues > 0 then updatedTags @ tagValues else updatedTags)
           in Inr (printed, [backtick] @ Join updatedTags [space] @ [backtick])))"

section \<open>The record rewriter\<close>

text \<open>
  The syntax tree, as far as the program looks at it.  A \<open>StructType\<close> has its position and
  its field list; each field has its names, its type (a node again, which may hold struct
  types of its own) and its optional tag literal.  Every other kind of node is a \<open>Node\<close>
  with its position and its children in the order in which \<^verbatim>\<open>ast.Inspect\<close> visits them.
\<close>

datatype Token = ILLEGAL | STRING

record BasicLit =
  ValuePos :: int
  Kind :: Token
  Value :: gostring

datatype node = StructType int "field list" | Node int "node list"
  and field = Field_ast (Names: "gostring list") (Type: node) (FieldTag: "BasicLit option")

fun Pos :: "node \<Rightarrow> int" where
  "Pos (StructType p fs) = p"
| "Pos (Node p cs) = p"

text \<open>
  The first byte of the UTF-8 encoding of a rune, and the index expression \<^verbatim>\<open>s[0]\<close>,
  which panics on the empty string.
\<close>

definition utf8_first :: "rune \<Rightarrow> nat" where
  "utf8_first r =
     (if r \<le> 0x7F then r
      else if r \<le> 0x7FF then 0xC0 + r div 0x40
      else if 0x10FFFF < r \<or> (0xD800 \<le> r \<and> r \<le> 0xDFFF) then 0xEF
      else if r \<le> 0xFFFF then 0xE0 + r div 0x1000
      else 0xF0 + r div 0x40000)"

definition first_byte :: "gostring \<Rightarrow> failure + nat" where
  "first_byte s = (case s of [] \<Rightarrow> Inl IndexOutOfRange | r # rs \<Rightarrow> Inr (utf8_first r))"

text \<open>
  One turn of the loop of \<^verbatim>\<open>processTags\<close>: what is printed and the field as the turn
  leaves it.
\<close>

definition process_field ::
  "unicode_tables \<Rightarrow> bool \<Rightarrow> TagOpt list \<Rightarrow> bool \<Rightarrow> field \<Rightarrow> failure + (gostring list \<times> field)" where
  "process_field U omitempty tags remove fld =
     (case Names fld of
        [] \<Rightarrow> Inr ([], fld)
      | name # names \<Rightarrow>
          (case first_byte name of
             Inl e \<Rightarrow> Inl e
           | Inr b \<Rightarrow>
               if \<not> IsUpper U b then Inr ([], fld)
               else
                 (let tag = (if remove then None else FieldTag fld);
                      lit = (case tag of
                               None \<Rightarrow> \<lparr>ValuePos = Pos (Type fld) + 1, Kind = STRING, Value = []\<rparr>
                             | Some l \<Rightarrow> l)
                  in case parseTags U omitempty name (Value lit) tags of
                       Inl e \<Rightarrow> Inl e
                     | Inr (printed, newTags) \<Rightarrow>
                         Inr (printed, Field_ast (Names fld) (Type fld) (Some (lit\<lparr>Value := newTags\<rparr>))))))"

fun processTags ::
  "unicode_tables \<Rightarrow> bool \<Rightarrow> field list \<Rightarrow> TagOpt list \<Rightarrow> bool \<Rightarrow>
     failure + (gostring list \<times> field list)" where
  "processTags U omitempty [] tags remove = Inr ([], [])"
| "processTags U omitempty (fld # flds) tags remove =
     (case process_field U omitempty tags remove fld of
        Inl e \<Rightarrow> Inl e
      | Inr (printed, fld') \<Rightarrow>
          (case processTags U omitempty flds tags remove of
             Inl e \<Rightarrow> Inl e
           | Inr (printed', flds') \<Rightarrow> Inr (printed @ printed', fld' # flds')))"

section \<open>The tree driver\<close>

text \<open>
  \<^verbatim>\<open>ast.Inspect\<close> with the function literal of \<^verbatim>\<open>GenerateTags\<close>: at a struct type the
  literal calls \<^verbatim>\<open>processTags\<close> and returns false, so the walk does not enter the node;
  at any other node it returns true and the walk goes on to the children.
\<close>

fun Inspect ::
  "unicode_tables \<Rightarrow> bool \<Rightarrow> TagOpt list \<Rightarrow> bool \<Rightarrow> node \<Rightarrow> failure + (gostring list \<times> node)"
  and Inspect_children ::
  "unicode_tables \<Rightarrow> bool \<Rightarrow> TagOpt list \<Rightarrow> bool \<Rightarrow> node list \<Rightarrow> failure + (gostring list \<times> node list)"
  where
  "Inspect U omitempty tags remove (StructType p flds) =
     (case processTags U omitempty flds tags remove of
        Inl e \<Rightarrow> Inl e
      | Inr (printed, flds') \<Rightarrow> Inr (printed, StructType p flds'))"
| "Inspect U omitempty tags remove (Node p cs) =
     (case Inspect_children U omitempty tags remove cs of
        Inl e \<Rightarrow> Inl e
      | Inr (printed, cs') \<Rightarrow> Inr (printed, Node p cs'))"
| "Inspect_children U omitempty tags remove [] = Inr ([], [])"
| "Inspect_children U omitempty tags remove (c # cs) =
     (case Inspect U omitempty tags remove c of
        Inl e \<Rightarrow> Inl e
      | Inr (printed, c') \<Rightarrow>
          (case Inspect_children U omitempty tags remove cs of
             Inl e \<Rightarrow> Inl e
           | Inr (printed', cs') \<Rightarrow> Inr (printed @ printed', c' # cs')))"










section \<open>Vocabulary of the properties\<close>

text \<open>
  The node that a path of child indices leads to.  A path goes through nodes other than
  struct types only: it ends at the first struct type it meets.
\<close>

primrec child_at :: "nat list \<Rightarrow> node \<Rightarrow> node option" where
  "child_at [] n = Some n"
| "child_at (i # path) n =
     (case n of
        StructType p flds \<Rightarrow> None
      | Node p cs \<Rightarrow> if i < length cs then child_at path (cs ! i) else None)"

text \<open>
  A tree in which every field of a struct type that the walk reaches has a non-empty first
  name that begins with an ASCII character.
\<close>

definition ascii_first :: "field \<Rightarrow> bool" where
  "ascii_first fld =
     (case Names fld of [] \<Rightarrow> True | name # names \<Rightarrow> name \<noteq> [] \<and> hd name \<le> MaxASCII)"

fun plain_tree :: "node \<Rightarrow> bool" where
  "plain_tree (StructType p flds) = (\<forall>fld \<in> set flds. ascii_first fld)"
| "plain_tree (Node p cs) = (\<forall>c \<in> set cs. plain_tree c)"

text \<open>
  A string without white space, and the pattern of a request lying somewhere in a string:
  the name, a colon, a quote, a non-empty value without a quote, and a quote.
\<close>

definition spaceless :: "gostring \<Rightarrow> bool" where
  "spaceless s = (\<forall>c \<in> set s. \<not> IsSpace c)"

definition found :: "gostring \<Rightarrow> gostring \<Rightarrow> bool" where
  "found lit s \<longleftrightarrow>
     (\<exists>a v b. s = a @ lit @ [colon, quote] @ v @ [quote] @ b \<and> v \<noteq> [] \<and> quote \<notin> set v)"

text \<open>
  The segments that the loop of the synthesizer generates, read off the requests: one for
  each request whose pattern has no match in the existing tag, in the order of the requests.
\<close>

definition new_segments ::
  "unicode_tables \<Rightarrow> bool \<Rightarrow> gostring \<Rightarrow> gostring \<Rightarrow> TagOpt list \<Rightarrow> gostring list" where
  "new_segments U omitempty fieldName tagValue tags =
     map (\<lambda>r. segment omitempty (Tag r)
            (case case_name U (Case r) fieldName of Inl e \<Rightarrow> [] | Inr (name, out) \<Rightarrow> name))
         (filter (\<lambda>r. FindString (Tag r) tagValue = []) tags)"

text \<open>
  A segment in which white space occurs as single spaces between other runes only: no tab,
  no line break, no two spaces in a row, no white space at either end.
\<close>

fun single_spaced :: "gostring \<Rightarrow> bool" where
  "single_spaced [] = True"
| "single_spaced [c] = (\<not> IsSpace c)"
| "single_spaced (c # d # cs) =
     (\<not> IsSpace c \<and> (if d = space then cs \<noteq> [] \<and> single_spaced cs else single_spaced (d # cs)))"

text \<open>
  What the idempotence of the synthesizer asks of its input: a rune that may stand in a
  generated value, a tag name that is a literal of the pattern and holds neither white space
  nor a backtick, and a case style that the program knows.
\<close>

definition value_rune :: "rune \<Rightarrow> bool" where
  "value_rune c \<longleftrightarrow> \<not> IsSpace c \<and> c \<noteq> quote \<and> c \<noteq> backtick"

definition plain_name :: "gostring \<Rightarrow> bool" where
  "plain_name t \<longleftrightarrow> literal_name t \<and> (\<forall>c \<in> set t. \<not> IsSpace c \<and> c \<noteq> backtick)"

definition known_case :: "gostring \<Rightarrow> bool" where
  "known_case c \<longleftrightarrow> c = case_snake \<or> c = case_camel \<or> c = case_pascal"

text \<open>
  What joining the fields of a string makes of it, rune by rune: white space at the ends is
  dropped and every other run of white space becomes one space.  \<open>pending\<close> says that a run
  of white space has been read after a field.
\<close>

fun squeeze :: "bool \<Rightarrow> gostring \<Rightarrow> gostring" where
  "squeeze pending [] = []"
| "squeeze pending (c # cs) =
     (if IsSpace c then squeeze True cs
      else (if pending then [space, c] else [c]) @ squeeze False cs)"




section \<open>Properties of the case converters\<close>

lemmas unicode_defs = IsUpper_def IsLower_def ToLower_def ToUpper_def MaxLatin1_def MaxASCII_def

text \<open>
  Claim C7.  On the identifiers of the specification the converters return the listed
  values, whatever the tables hold: \<open>ToSnake\<close> gives \<open>user_id\<close> for \<open>UserID\<close> and \<open>id\<close> for
  \<open>ID\<close>, \<open>ToCamel\<close> gives \<open>userID\<close> for \<open>UserID\<close> and \<open>apiKey\<close> for \<open>APIKey\<close>, and the
  pascal style returns \<open>UserID\<close> as it is.
\<close>

theorem converters_on_examples:
  "ToSnake U (str ''UserID'') = str ''user_id'' \<and>
   ToCamel U (str ''UserID'') = Inr (str ''userID'') \<and>
   case_name U case_pascal (str ''UserID'') = Inr (str ''UserID'', []) \<and>
   ToSnake U (str ''ID'') = str ''id'' \<and>
   ToCamel U (str ''APIKey'') = Inr (str ''apiKey'')"
  by (simp add: ToSnake_def snake_step_def ToCamel_def camel_loop.simps case_name_def
      case_pascal_def case_snake_def case_camel_def str_def unicode_defs upt_rec)

text \<open>
  The first loop of \<open>ToCamel\<close>, started at \<open>i\<close>: it lower-cases the runes from \<open>i\<close> up to the
  first lower-case one and stops at the index of that rune.
\<close>

lemma camel_loop_run:
  "i \<le> length runes \<Longrightarrow>
   camel_loop U runes i =
     (take i runes @ map (ToLower U) (takeWhile (\<lambda>r. \<not> IsLower U r) (drop i runes))
        @ dropWhile (\<lambda>r. \<not> IsLower U r) (drop i runes),
      i + length (takeWhile (\<lambda>r. \<not> IsLower U r) (drop i runes)))"
proof (induction U runes i rule: camel_loop.induct)
  case (1 U runes i)
  show ?case
  proof (cases "i < length runes")
    case False
    with "1.prems" show ?thesis by (simp add: camel_loop.simps)
  next
    case True
    then have d: "drop i runes = runes ! i # drop (Suc i) runes"
      by (simp add: Cons_nth_drop_Suc)
    show ?thesis
    proof (cases "IsLower U (runes ! i)")
      case True
      with \<open>i < length runes\<close> d show ?thesis
        by (simp add: camel_loop.simps id_take_nth_drop [symmetric])
    next
      case False
      have "camel_loop U runes i = camel_loop U (runes[i := ToLower U (runes ! i)]) (i + 1)"
        using False \<open>i < length runes\<close> by (subst camel_loop.simps) simp
      also have "\<dots> = (take (i + 1) (runes[i := ToLower U (runes ! i)])
            @ map (ToLower U) (takeWhile (\<lambda>r. \<not> IsLower U r)
                (drop (i + 1) (runes[i := ToLower U (runes ! i)])))
            @ dropWhile (\<lambda>r. \<not> IsLower U r) (drop (i + 1) (runes[i := ToLower U (runes ! i)])),
          i + 1 + length (takeWhile (\<lambda>r. \<not> IsLower U r)
                (drop (i + 1) (runes[i := ToLower U (runes ! i)]))))"
        using "1.IH" [OF \<open>i < length runes\<close> False] \<open>i < length runes\<close> by simp
      finally show ?thesis
        using False \<open>i < length runes\<close> d
        by (simp add: take_Suc_conv_app_nth)
    qed
  qed
qed

text \<open>
  Claim C8, as the program has it.  For an identifier that does not begin with a lower-case
  letter, \<open>ToCamel\<close> lower-cases the leading run of runes that are not lower-case letters
  (upper-case letters, digits and underscores alike); when the run has length one or is the
  whole identifier nothing else is done, and otherwise the last rune of the run, the one
  right before the first lower-case letter, is upper-cased again.
\<close>

theorem ToCamel_leading_run:
  assumes "s \<noteq> []" and "\<not> IsLower U (hd s)"
  shows "ToCamel U s =
     Inr (let n = length (takeWhile (\<lambda>r. \<not> IsLower U r) s);
              lowered = map (ToLower U) (take n s) @ drop n s
          in if n = 1 \<or> n = length s then lowered
             else lowered[n - 1 := ToUpper U (lowered ! (n - 1))])"
proof -
  let ?P = "\<lambda>r. \<not> IsLower U r"
  define n where "n = length (takeWhile ?P s)"
  have tk: "takeWhile ?P s = take n s"
    unfolding n_def by (rule takeWhile_eq_take)
  have dr: "dropWhile ?P s = drop n s"
    unfolding n_def by (rule dropWhile_eq_drop)
  have "camel_loop U s 0 = (map (ToLower U) (takeWhile ?P s) @ dropWhile ?P s, n)"
    using camel_loop_run [of 0 s U] by (simp add: n_def)
  then have loop: "camel_loop U s 0 = (map (ToLower U) (take n s) @ drop n s, n)"
    by (simp only: tk dr)
  from assms have pos: "n \<noteq> 0" by (cases s) (auto simp: n_def)
  have "n \<le> length s" by (simp add: n_def length_takeWhile_le)
  then have len: "length (map (ToLower U) (take n s) @ drop n s) = length s"
    by simp
  show ?thesis
    unfolding ToCamel_def loop n_def [symmetric] using pos len
    by (simp add: Let_def)
qed

theorem ToCamel_leading_run_witness:
  "str ''APIKey'' \<noteq> [] \<and> \<not> IsLower fast_paths_only (hd (str ''APIKey'')) \<and>
   ToCamel fast_paths_only (str ''APIKey'') = Inr (str ''apiKey'')"
  using ToCamel_leading_run [of "str ''APIKey''" fast_paths_only]
  by (simp add: str_def unicode_defs)

text \<open>
  The wording of the specification fails on \<open>APIKey\<close>, where it upper-cases the \<open>e\<close> after
  the run and the program the \<open>K\<close> that ends it; on \<open>A1BCd\<close>, where the run of the program
  goes on through the digit; and on \<open>abc\<close>, where the program panics.
\<close>

theorem toCamel_spec_counterexample:
  "ToCamel fast_paths_only (str ''APIKey'') = Inr (str ''apiKey'') \<and>
   toCamel_spec fast_paths_only (str ''APIKey'') = str ''apikEy'' \<and>
   ToCamel fast_paths_only (str ''A1BCd'') = Inr (str ''a1bCd'') \<and>
   toCamel_spec fast_paths_only (str ''A1BCd'') = str ''a1BCd'' \<and>
   ToCamel fast_paths_only (str ''abc'') = Inl IndexOutOfRange"
  by (simp add: ToCamel_def toCamel_spec_def upper_run_def str_def camel_loop.simps unicode_defs)

text \<open>An identifier that begins with a lower-case letter makes \<open>ToCamel\<close> panic.\<close>

lemma ToCamel_lower_first:
  assumes "s \<noteq> []" and "IsLower U (hd s)"
  shows "ToCamel U s = Inl IndexOutOfRange"
  using assms by (cases s) (simp_all add: ToCamel_def camel_loop.simps)

text \<open>
  An identifier that is empty or does not begin with a lower-case letter makes \<open>ToCamel\<close>
  return.
\<close>

lemma ToCamel_returns:
  assumes "s = [] \<or> \<not> IsLower U (hd s)"
  shows "\<exists>r. ToCamel U s = Inr r"
proof -
  obtain runes n where loop: "camel_loop U s 0 = (runes, n)"
    and n: "n = length (takeWhile (\<lambda>r. \<not> IsLower U r) s)"
    using camel_loop_run [of 0 s U] by simp
  from assms n have "s = [] \<or> n \<noteq> 0" by (cases s) auto
  then have "n = 0 \<longrightarrow> n = length runes"
    using loop by (auto simp: camel_loop.simps)
  with loop show ?thesis by (auto simp: ToCamel_def)
qed

section \<open>Properties of the pattern match\<close>

lemmas char_defs = quote_def colon_def backtick_def space_def

lemmas eval_defs = str_def parseTags_def ToSnake_def snake_step_def ToCamel_def camel_loop.simps
  unicode_defs Fields_def Trim_def match_here_def literal_name_def regexp_special_def case_name_def
  segment_def case_snake_def case_camel_def case_pascal_def char_defs IsSpace_def upt_rec

text \<open>
  The pattern matches at the head of a string exactly when the string begins with the name,
  a colon, a quote, a non-empty value without a quote, and a quote; and \<open>FindString\<close> returns
  a match exactly when such a piece lies anywhere in the string.
\<close>

lemma match_here_Some_iff:
  "match_here lit s \<noteq> None \<longleftrightarrow>
     (\<exists>v b. s = lit @ [colon, quote] @ v @ [quote] @ b \<and> v \<noteq> [] \<and> quote \<notin> set v)"
proof
  assume m: "match_here lit s \<noteq> None"
  let ?p = "lit @ [colon, quote]"
  let ?rest = "drop (length ?p) s"
  let ?v = "takeWhile (\<lambda>c. c \<noteq> quote) ?rest"
  from m have p: "take (length ?p) s = ?p" and v: "?v \<noteq> []" and l: "length ?v < length ?rest"
    by (auto simp: match_here_def Let_def split: if_splits)
  from l have dw: "dropWhile (\<lambda>c. c \<noteq> quote) ?rest \<noteq> []"
    by (metis append.right_neutral less_irrefl takeWhile_dropWhile_id)
  then have "hd (dropWhile (\<lambda>c. c \<noteq> quote) ?rest) = quote"
    using hd_dropWhile by blast
  with dw obtain b where b: "dropWhile (\<lambda>c. c \<noteq> quote) ?rest = quote # b"
    by (cases "dropWhile (\<lambda>c. c \<noteq> quote) ?rest") auto
  have "s = take (length ?p) s @ ?rest" by simp
  also have "\<dots> = ?p @ ?v @ dropWhile (\<lambda>c. c \<noteq> quote) ?rest"
    by (simp only: p takeWhile_dropWhile_id)
  finally have "s = lit @ [colon, quote] @ ?v @ [quote] @ b"
    by (simp only: b) simp
  moreover have "quote \<notin> set ?v"
    using set_takeWhileD [of quote "\<lambda>c. c \<noteq> quote"] by blast
  ultimately show "\<exists>v b. s = lit @ [colon, quote] @ v @ [quote] @ b \<and> v \<noteq> [] \<and> quote \<notin> set v"
    using v by blast
next
  assume "\<exists>v b. s = lit @ [colon, quote] @ v @ [quote] @ b \<and> v \<noteq> [] \<and> quote \<notin> set v"
  then obtain v b where s: "s = lit @ [colon, quote] @ v @ [quote] @ b" and v: "v \<noteq> []" "quote \<notin> set v"
    by blast
  from v(2) have tw: "takeWhile (\<lambda>c. c \<noteq> quote) (v @ quote # b) = v"
    by (induction v) auto
  show "match_here lit s \<noteq> None"
    using v by (simp add: match_here_def s Let_def tw)
qed

lemma match_here_nonempty: "match_here lit s = Some m \<Longrightarrow> m \<noteq> []"
  by (auto simp: match_here_def Let_def split: if_splits)

lemma FindString_empty_iff:
  "FindString lit s = [] \<longleftrightarrow> (\<forall>a t. s = a @ t \<longrightarrow> match_here lit t = None)"
proof (induction s)
  case Nil
  show ?case by (simp add: match_here_def Let_def)
next
  case (Cons c cs)
  show ?case
  proof (cases "match_here lit (c # cs)")
    case (Some m)
    then have "FindString lit (c # cs) \<noteq> []"
      by (simp add: match_here_nonempty)
    moreover from Some have "\<not> (\<forall>a t. c # cs = a @ t \<longrightarrow> match_here lit t = None)"
      by (metis append_Nil option.distinct(1))
    ultimately show ?thesis by blast
  next
    case None
    have "(\<forall>a t. c # cs = a @ t \<longrightarrow> match_here lit t = None) \<longleftrightarrow>
          (\<forall>a t. cs = a @ t \<longrightarrow> match_here lit t = None)"
    proof
      assume h: "\<forall>a t. c # cs = a @ t \<longrightarrow> match_here lit t = None"
      show "\<forall>a t. cs = a @ t \<longrightarrow> match_here lit t = None"
      proof (intro allI impI)
        fix a t assume "cs = a @ t"
        then have "c # cs = (c # a) @ t" by simp
        with h show "match_here lit t = None" by blast
      qed
    next
      assume h: "\<forall>a t. cs = a @ t \<longrightarrow> match_here lit t = None"
      show "\<forall>a t. c # cs = a @ t \<longrightarrow> match_here lit t = None"
      proof (intro allI impI)
        fix a t assume e: "c # cs = a @ t"
        show "match_here lit t = None"
        proof (cases a)
          case Nil
          with e None show ?thesis by simp
        next
          case (Cons x a')
          with e have "cs = a' @ t" by simp
          with h show ?thesis by blast
        qed
      qed
    qed
    with None Cons.IH show ?thesis by simp
  qed
qed

lemma FindString_found_iff:
  "FindString lit s \<noteq> [] \<longleftrightarrow>
     (\<exists>a v b. s = a @ lit @ [colon, quote] @ v @ [quote] @ b \<and> v \<noteq> [] \<and> quote \<notin> set v)"
proof -
  have "FindString lit s \<noteq> [] \<longleftrightarrow> (\<exists>a t. s = a @ t \<and> match_here lit t \<noteq> None)"
    by (simp add: FindString_empty_iff)
  also have "\<dots> \<longleftrightarrow> (\<exists>a v b. s = a @ lit @ [colon, quote] @ v @ [quote] @ b \<and> v \<noteq> [] \<and> quote \<notin> set v)"
    unfolding match_here_Some_iff by blast
  finally show ?thesis .
qed

section \<open>Properties of the tag synthesizer\<close>

text \<open>
  Claim C2 at a failing input.  For the field \<open>Name\<close> without a tag and the single request
  \<open>json:kebab\<close>, whose case style is unknown, the program prints the message and goes on to
  format a segment around the empty name: the new tag is \<open>json:""\<close>, or
  \<open>json:",omitempty"\<close> when the flag is set.  The request is not skipped.
\<close>

theorem unknown_case_generates_segment:
  "parseTags U False (str ''Name'') [] [\<lparr>Tag = str ''json'', Case = str ''kebab''\<rparr>] =
     Inr ([str ''Unknown case option kebab''], str ''`json:\"\"`'') \<and>
   parseTags U True (str ''Name'') [] [\<lparr>Tag = str ''json'', Case = str ''kebab''\<rparr>] =
     Inr ([str ''Unknown case option kebab''], str ''`json:\",omitempty\"`'')"
  by (simp add: eval_defs)

text \<open>
  The synthesizer returns when the tag names are literals of the pattern and the identifier
  does not begin with a lower-case letter.
\<close>

lemma case_name_returns:
  assumes "fieldName = [] \<or> \<not> IsLower U (hd fieldName)"
  shows "\<exists>name out. case_name U c fieldName = Inr (name, out)"
  using ToCamel_returns [OF assms] by (auto simp: case_name_def)

lemma tags_loop_returns:
  assumes "\<forall>r \<in> set tags. literal_name (Tag r)"
      and "fieldName = [] \<or> \<not> IsLower U (hd fieldName)"
  shows "\<exists>printed tagValues. tags_loop U omitempty fieldName tagValue tags acc = Inr (printed, tagValues)"
  using assms(1)
proof (induction tags arbitrary: acc)
  case Nil
  show ?case by (cases acc) simp
next
  case (Cons t tags)
  obtain p0 v0 where acc: "acc = (p0, v0)" by (cases acc)
  from case_name_returns [OF assms(2), of "Case t"] obtain name out where
    cn: "case_name U (Case t) fieldName = Inr (name, out)" by blast
  from Cons.prems have lit: "literal_name (Tag t)" and rest: "\<forall>r \<in> set tags. literal_name (Tag r)"
    by auto
  from Cons.IH [OF rest, of "(p0, v0)"]
    Cons.IH [OF rest, of "(p0 @ out, v0 @ [segment omitempty (Tag t) name])"]
  show ?case by (simp add: acc lit cn)
qed

lemma parseTags_returns:
  assumes "\<forall>r \<in> set tags. literal_name (Tag r)"
      and "fieldName = [] \<or> \<not> IsLower U (hd fieldName)"
  shows "\<exists>printed value. parseTags U omitempty fieldName tagValue tags = Inr (printed, value)"
proof -
  from tags_loop_returns [OF assms, of omitempty tagValue "([], [])"] obtain printed tagValues where
    "tags_loop U omitempty fieldName tagValue tags ([], []) = Inr (printed, tagValues)" by blast
  then show ?thesis by (simp add: parseTags_def Let_def)
qed

text \<open>A request whose pattern matches in the tag leaves the loop as it found it.\<close>

lemma tags_loop_skip:
  assumes "literal_name (Tag r)" and "FindString (Tag r) tagValue \<noteq> []"
  shows "tags_loop U omitempty fieldName tagValue (pre @ r # post) acc =
         tags_loop U omitempty fieldName tagValue (pre @ post) acc"
  using assms
proof (induction pre arbitrary: acc)
  case Nil
  then show ?case by (cases acc) simp
next
  case (Cons t pre)
  then show ?case
    by (cases acc) (simp split: sum.splits prod.splits)
qed

text \<open>
  Claim C9, as the program has it.  When the name of a request, followed by a colon and a
  quoted non-empty value, lies anywhere in the existing tag, also as the end of a longer key
  \<open>k @ Tag r\<close>, the synthesizer returns what it returns without that request: the request
  is taken as satisfied and no segment is generated for it.  (The name is a literal of the
  pattern.)
\<close>

theorem suffix_key_satisfies_request:
  assumes "literal_name (Tag r)"
      and "tagValue = a @ k @ Tag r @ [colon, quote] @ v @ [quote] @ b"
      and "v \<noteq> []" and "quote \<notin> set v"
  shows "parseTags U omitempty fieldName tagValue (pre @ r # post) =
         parseTags U omitempty fieldName tagValue (pre @ post)"
proof -
  from assms(2) have "tagValue = (a @ k) @ Tag r @ [colon, quote] @ v @ [quote] @ b"
    by simp
  with assms(3,4) have "FindString (Tag r) tagValue \<noteq> []"
    unfolding FindString_found_iff by blast
  with assms(1) show ?thesis
    by (simp add: parseTags_def tags_loop_skip)
qed

theorem suffix_key_satisfies_request_witness:
  "parseTags fast_paths_only False (str ''Email'') (str ''`bjson:\"x\"`'')
     [\<lparr>Tag = str ''json'', Case = str ''camel''\<rparr>] = Inr ([], str ''`bjson:\"x\"`'')"
  using suffix_key_satisfies_request [of "\<lparr>Tag = str ''json'', Case = str ''camel''\<rparr>"
      "str ''`bjson:\"x\"`''" "[backtick]" "str ''b''" "str ''x''" "[backtick]"
      fast_paths_only False "str ''Email''" "[]" "[]"]
  by (simp add: eval_defs)

text \<open>
  A longer key with an empty value does not satisfy the request: the pattern asks for a
  character between the quotes.
\<close>

theorem suffix_key_counterexample:
  "parseTags fast_paths_only False (str ''Email'') (str ''`bjson:\"\"`'')
     [\<lparr>Tag = str ''json'', Case = str ''camel''\<rparr>] =
     Inr ([], str ''`bjson:\"\" json:\"email\"`'')"
  by (simp add: eval_defs)

text \<open>
  The values the loop returns extend those it started with, and a request whose pattern has
  no match contributes its segment.
\<close>

lemma tags_loop_extends:
  "tags_loop U omitempty fieldName tagValue tags acc = Inr (printed, tagValues) \<Longrightarrow>
   \<exists>zs. tagValues = snd acc @ zs"
proof (induction tags arbitrary: acc)
  case Nil
  then show ?case by auto
next
  case (Cons t tags)
  obtain p0 v0 where acc: "acc = (p0, v0)" by (cases acc)
  show ?case
  proof (cases "FindString (Tag t) tagValue = []")
    case True
    with Cons.prems acc obtain name out where
      "tags_loop U omitempty fieldName tagValue tags
         (p0 @ out, v0 @ [segment omitempty (Tag t) name]) = Inr (printed, tagValues)"
      by (auto split: if_splits sum.splits)
    from Cons.IH [OF this] show ?thesis by (auto simp: acc)
  next
    case False
    with Cons.prems acc have
      "tags_loop U omitempty fieldName tagValue tags (p0, v0) = Inr (printed, tagValues)"
      by (auto split: if_splits)
    from Cons.IH [OF this] show ?thesis by (simp add: acc)
  qed
qed

lemma tags_loop_generates:
  assumes "tags_loop U omitempty fieldName tagValue tags acc = Inr (printed, tagValues)"
      and "r \<in> set tags" and "FindString (Tag r) tagValue = []"
  shows "\<exists>name out ys zs. case_name U (Case r) fieldName = Inr (name, out) \<and>
           tagValues = snd acc @ ys @ [segment omitempty (Tag r) name] @ zs"
  using assms
proof (induction tags arbitrary: acc)
  case Nil
  then show ?case by simp
next
  case (Cons t tags)
  obtain p0 v0 where acc: "acc = (p0, v0)" by (cases acc)
  show ?case
  proof (cases "FindString (Tag t) tagValue = []")
    case True
    with Cons.prems(1) acc obtain name out where
      cn: "case_name U (Case t) fieldName = Inr (name, out)" and
      rec: "tags_loop U omitempty fieldName tagValue tags
         (p0 @ out, v0 @ [segment omitempty (Tag t) name]) = Inr (printed, tagValues)"
      by (auto split: if_splits sum.splits)
    show ?thesis
    proof (cases "r = t")
      case True
      from tags_loop_extends [OF rec] obtain zs where
        "tagValues = v0 @ [] @ [segment omitempty (Tag t) name] @ zs" by auto
      with cn True acc show ?thesis by (metis snd_conv)
    next
      case False
      with Cons.prems(2) have "r \<in> set tags" by simp
      from Cons.IH [OF rec this Cons.prems(3)] obtain name' out' ys zs where
        "case_name U (Case r) fieldName = Inr (name', out')"
        "tagValues = v0 @ ([segment omitempty (Tag t) name] @ ys) @ [segment omitempty (Tag r) name'] @ zs"
        by auto
      with acc show ?thesis by (metis snd_conv)
    qed
  next
    case False
    with Cons.prems(3) have "r \<noteq> t" by auto
    with Cons.prems(2) have r: "r \<in> set tags" by simp
    from False Cons.prems(1) acc have
      "tags_loop U omitempty fieldName tagValue tags (p0, v0) = Inr (printed, tagValues)"
      by (auto split: if_splits)
    from Cons.IH [OF this r Cons.prems(3)] acc show ?thesis by simp
  qed
qed

text \<open>
  When the pattern of a request has no match although its empty-valued segment is among the
  fields of the tag, the output holds that segment and, further on, the generated one.
\<close>

lemma empty_value_appends:
  assumes "r \<in> set tags"
      and "Fields (Trim tagValue [backtick]) = xs @ [Tag r @ [colon, quote, quote]] @ ys"
      and "\<forall>a b. tagValue = a @ Tag r @ [colon, quote] @ b \<longrightarrow> b \<noteq> [] \<and> hd b = quote"
      and "parseTags U omitempty fieldName tagValue tags = Inr (printed, value)"
  shows "FindString (Tag r) tagValue = [] \<and>
         (\<exists>name out ys' zs. case_name U (Case r) fieldName = Inr (name, out) \<and>
            value = [backtick] @ Join (xs @ [Tag r @ [colon, quote, quote]] @ ys @ ys' @
                      [segment omitempty (Tag r) name] @ zs) [space] @ [backtick])"
proof -
  have nf: "FindString (Tag r) tagValue = []"
  proof (rule ccontr)
    assume "FindString (Tag r) tagValue \<noteq> []"
    then obtain a v b where "tagValue = a @ Tag r @ [colon, quote] @ v @ [quote] @ b"
      and v: "v \<noteq> []" "quote \<notin> set v"
      unfolding FindString_found_iff by blast
    with assms(3) have "hd (v @ [quote] @ b) = quote" by blast
    with v show False by (cases v) auto
  qed
  from assms(4) obtain tagValues where
    loop: "tags_loop U omitempty fieldName tagValue tags ([], []) = Inr (printed, tagValues)"
    and val: "value = [backtick] @ Join (Fields (Trim tagValue [backtick]) @ tagValues) [space] @ [backtick]"
    by (auto simp: parseTags_def Let_def split: sum.splits if_splits)
  from tags_loop_generates [OF loop assms(1) nf] obtain name out ys' zs where
    "case_name U (Case r) fieldName = Inr (name, out)"
    "tagValues = ys' @ [segment omitempty (Tag r) name] @ zs"
    by auto
  with val assms(2) nf show ?thesis by auto
qed

text \<open>
  Claim C10, as the program has it.  Let the tag names of the requests be literals of the
  pattern, and let the identifier of the field not begin with a lower-case letter.  Let the
  segment \<open>name:""\<close> of a request be one of the white-space-separated fields of the existing
  tag, and let every occurrence of the name followed by a colon and a quote in the tag, also
  inside a longer key, be followed at once by the closing quote.  Then the pattern has no
  match, the synthesizer returns, and the new tag is made of the fields of the existing tag,
  the empty-valued segment among them, followed by generated segments, one of which is that
  of the request: two segments with that name.
\<close>

theorem empty_value_not_detected:
  assumes "r \<in> set tags"
      and "Fields (Trim tagValue [backtick]) = xs @ [Tag r @ [colon, quote, quote]] @ ys"
      and "\<forall>a b. tagValue = a @ Tag r @ [colon, quote] @ b \<longrightarrow> b \<noteq> [] \<and> hd b = quote"
      and "\<forall>t \<in> set tags. literal_name (Tag t)"
      and "fieldName = [] \<or> \<not> IsLower U (hd fieldName)"
  shows "FindString (Tag r) tagValue = [] \<and>
         (\<exists>printed name out ys' zs. case_name U (Case r) fieldName = Inr (name, out) \<and>
            parseTags U omitempty fieldName tagValue tags =
              Inr (printed, [backtick] @ Join (xs @ [Tag r @ [colon, quote, quote]] @ ys @ ys' @
                      [segment omitempty (Tag r) name] @ zs) [space] @ [backtick]))"
proof -
  from parseTags_returns [OF assms(4,5), of omitempty tagValue] obtain printed v where
    run: "parseTags U omitempty fieldName tagValue tags = Inr (printed, v)" by blast
  from empty_value_appends [OF assms(1,2,3) run] run show ?thesis by blast
qed

theorem empty_value_not_detected_witness:
  "parseTags fast_paths_only False (str ''Email'') (str ''`json:\"\"`'')
     [\<lparr>Tag = str ''json'', Case = str ''camel''\<rparr>] =
     Inr ([], str ''`json:\"\" json:\"email\"`'') \<and>
   FindString (str ''json'') (str ''`json:\"\"`'') = []"
proof -
  let ?r = "\<lparr>Tag = str ''json'', Case = str ''camel''\<rparr>"
  have h: "\<forall>a b. str ''`json:\"\"`'' = a @ Tag ?r @ [colon, quote] @ b \<longrightarrow> b \<noteq> [] \<and> hd b = quote"
    by (auto simp: str_def char_defs Cons_eq_append_conv)
  have f: "Fields (Trim (str ''`json:\"\"`'') [backtick]) = [] @ [Tag ?r @ [colon, quote, quote]] @ []"
    by (simp add: eval_defs)
  have l: "\<forall>t \<in> set [?r]. literal_name (Tag t)"
    by (simp add: literal_name_def regexp_special_def str_def)
  have n: "str ''Email'' = [] \<or> \<not> IsLower fast_paths_only (hd (str ''Email''))"
    by (simp add: str_def unicode_defs)
  have r: "parseTags fast_paths_only False (str ''Email'') (str ''`json:\"\"`'') [?r] =
     Inr ([], str ''`json:\"\" json:\"email\"`'')"
    by (simp add: eval_defs)
  from empty_value_not_detected [OF _ f h l n, of False] r show ?thesis
    by simp
qed

text \<open>
  With the tag \<open>bjson:"x" json:""\<close> the request \<open>json\<close> finds its pattern inside the longer key:
  nothing is appended, and the output holds one segment with the name \<open>json\<close>.
\<close>

theorem empty_value_counterexample:
  "parseTags fast_paths_only False (str ''Email'') (str ''`bjson:\"x\" json:\"\"`'')
     [\<lparr>Tag = str ''json'', Case = str ''camel''\<rparr>] =
     Inr ([], str ''`bjson:\"x\" json:\"\"`'')"
  by (simp add: eval_defs)

text \<open>Facts about \<open>Fields\<close>, \<open>Join\<close> and \<open>Trim\<close>.\<close>

lemma spaceless_simps [simp]:
  "spaceless []" "spaceless (c # cs) \<longleftrightarrow> \<not> IsSpace c \<and> spaceless cs"
  "spaceless (xs @ ys) \<longleftrightarrow> spaceless xs \<and> spaceless ys"
  by (auto simp: spaceless_def)

lemma IsSpace_space [simp]: "IsSpace space"
  by (simp add: IsSpace_def space_def)

lemma not_space_marks [simp]: "\<not> IsSpace quote" "\<not> IsSpace colon" "\<not> IsSpace backtick"
  by (simp_all add: IsSpace_def char_defs)

lemma marks_distinct [simp]: "space \<noteq> quote" "quote \<noteq> space" "backtick \<noteq> quote" "quote \<noteq> backtick"
  "backtick \<noteq> space" "space \<noteq> backtick" "colon \<noteq> backtick" "backtick \<noteq> colon"
  by (simp_all add: char_defs)

lemma Fields_from_nonempty: "cur \<noteq> [] \<Longrightarrow> Fields_from cur s \<noteq> []"
  by (induction s arbitrary: cur) auto

lemma Fields_from_chunks:
  "spaceless cur \<Longrightarrow> \<forall>x \<in> set (Fields_from cur s). x \<noteq> [] \<and> spaceless x"
proof (induction s arbitrary: cur)
  case Nil
  then show ?case by simp
next
  case (Cons c s)
  from Cons.IH [of "[]"] Cons.IH [of "cur @ [c]"] Cons.prems show ?case
    by simp
qed

lemma Fields_chunks: "x \<in> set (Fields s) \<Longrightarrow> x \<noteq> [] \<and> spaceless x"
  unfolding Fields_def using Fields_from_chunks [of "[]" s] by simp

lemma Fields_from_spaceless:
  "spaceless w \<Longrightarrow> Fields_from cur (w @ rest) = Fields_from (cur @ w) rest"
  by (induction w arbitrary: cur) auto

lemma Join_Cons: "Join (x # xs) sep = (if xs = [] then x else x @ sep @ Join xs sep)"
  by (cases xs) auto

lemma Fields_Join_chunks:
  "(\<And>x. x \<in> set xs \<Longrightarrow> x \<noteq> [] \<and> spaceless x) \<Longrightarrow> Fields (Join xs [space]) = xs"
proof (induction xs)
  case Nil
  show ?case by (simp add: Fields_def)
next
  case (Cons x xs)
  then have x: "spaceless x" "x \<noteq> []" by auto
  from Cons have IH: "Fields (Join xs [space]) = xs" by auto
  show ?case
  proof (cases "xs = []")
    case True
    with x show ?thesis
      using Fields_from_spaceless [of x "[]" "[]"] by (simp add: Fields_def)
  next
    case False
    then have "Fields (Join (x # xs) [space]) = Fields_from x (space # Join xs [space])"
      using Fields_from_spaceless [of x "[]" "space # Join xs [space]"] x
      by (simp add: Fields_def Join_Cons)
    also have "\<dots> = x # Fields (Join xs [space])"
      using x by (simp add: Fields_def)
    finally show ?thesis using IH by simp
  qed
qed

lemma Fields_from_subset: "x \<in> set (Fields_from cur s) \<Longrightarrow> set x \<subseteq> set cur \<union> set s"
proof (induction s arbitrary: cur)
  case Nil
  then show ?case by (auto split: if_splits)
next
  case (Cons c s)
  show ?case
  proof (cases "IsSpace c")
    case True
    with Cons.prems have "x = cur \<or> x \<in> set (Fields_from [] s)"
      by (auto split: if_splits)
    with Cons.IH [of "[]"] show ?thesis by auto
  next
    case False
    with Cons.prems have "x \<in> set (Fields_from (cur @ [c]) s)" by simp
    from Cons.IH [OF this] show ?thesis by auto
  qed
qed

lemma Fields_subset: "x \<in> set (Fields s) \<Longrightarrow> set x \<subseteq> set s"
  unfolding Fields_def using Fields_from_subset [of x "[]" s] by simp

lemma Join_append:
  "Join (xs @ ys) sep =
     (if xs = [] then Join ys sep else if ys = [] then Join xs sep
      else Join xs sep @ sep @ Join ys sep)"
  by (induction xs) (auto simp: Join_Cons)

lemma Join_part: "x \<in> set xs \<Longrightarrow> \<exists>a b. Join xs sep = a @ x @ b"
proof (induction xs)
  case Nil
  then show ?case by simp
next
  case (Cons y xs)
  show ?case
  proof (cases "x = y")
    case True
    have "Join (y # xs) sep = [] @ y @ (if xs = [] then [] else sep @ Join xs sep)"
      by (simp add: Join_Cons)
    with True show ?thesis by blast
  next
    case False
    with Cons have "x \<in> set xs" by simp
    then have ne: "xs \<noteq> []" by auto
    from Cons.IH [OF \<open>x \<in> set xs\<close>] obtain a b where ab: "Join xs sep = a @ x @ b" by blast
    with ne have "Join (y # xs) sep = (y @ sep @ a) @ x @ b"
      by (simp add: Join_Cons)
    then show ?thesis by blast
  qed
qed

lemma Join_set: "c \<in> set (Join xs sep) \<Longrightarrow> c \<in> set sep \<or> (\<exists>x \<in> set xs. c \<in> set x)"
  by (induction xs) (auto simp: Join_Cons split: if_splits)

lemma Trim_Nil: "Trim [] cutset = []"
  by (simp add: Trim_def)

lemma dropWhile_head: "xs \<noteq> [] \<Longrightarrow> \<not> P (hd xs) \<Longrightarrow> dropWhile P xs = xs"
  by (cases xs) auto

lemma Trim_raw:
  assumes "backtick \<notin> set body"
  shows "Trim ([backtick] @ body @ [backtick]) [backtick] = body"
proof (cases "body = []")
  case True
  then show ?thesis by (simp add: Trim_def)
next
  case False
  let ?P = "\<lambda>c. c \<in> set [backtick]"
  from False assms have "\<not> ?P (hd body)" "\<not> ?P (hd (rev body))"
    by (auto simp: hd_rev dest: hd_in_set last_in_set)
  with False have 1: "dropWhile ?P (body @ [backtick]) = body @ [backtick]"
    and 2: "dropWhile ?P (rev body) = rev body"
    by (simp_all add: dropWhile_head)
  have "Trim ([backtick] @ body @ [backtick]) [backtick] =
        rev (dropWhile ?P (rev (dropWhile ?P (body @ [backtick]))))"
    by (simp add: Trim_def)
  also have "\<dots> = rev (dropWhile ?P (rev body))"
    by (simp only: 1) simp
  also have "\<dots> = body"
    by (simp only: 2) simp
  finally show ?thesis .
qed

text \<open>
  Joining the fields of a string with single spaces squeezes its white space.
\<close>

lemma Join_Fields_from:
  "(cur \<noteq> [] \<longrightarrow> Join (Fields_from cur s) [space] = cur @ squeeze False s) \<and>
   (if Fields_from [] s = [] then [] else space # Join (Fields_from [] s) [space]) = squeeze True s"
proof (induction s arbitrary: cur)
  case Nil
  show ?case by simp
next
  case (Cons c cs)
  show ?case
  proof (cases "IsSpace c")
    case True
    with Cons [of cur] show ?thesis
      by (auto simp: Join_Cons)
  next
    case False
    from Cons [of "cur @ [c]"] Cons [of "[c]"] False show ?thesis
      by (auto simp: Fields_from_nonempty)
  qed
qed

lemma Fields_from_dropWhile: "Fields_from [] (dropWhile IsSpace s) = Fields_from [] s"
  by (induction s) auto

lemma Join_Fields: "Join (Fields s) [space] = squeeze False (dropWhile IsSpace s)"
proof (cases "dropWhile IsSpace s")
  case Nil
  have "Fields s = Fields_from [] (dropWhile IsSpace s)"
    by (simp only: Fields_def Fields_from_dropWhile)
  also have "\<dots> = []"
    unfolding Nil by simp
  finally have "Fields s = []" .
  then show ?thesis
    unfolding Nil by simp
next
  case (Cons d ds)
  then have "\<not> IsSpace d" using hd_dropWhile [of IsSpace s] by auto
  moreover have "Fields s = Fields_from [] (d # ds)"
    using Fields_from_dropWhile [of s] Cons by (simp add: Fields_def)
  ultimately show ?thesis
    using Join_Fields_from [of "[d]" ds] Cons by simp
qed

lemma single_spaced_hd: "single_spaced s \<Longrightarrow> s \<noteq> [] \<Longrightarrow> \<not> IsSpace (hd s)"
  by (induction s rule: single_spaced.induct) auto

lemma squeeze_spaces:
  "\<forall>c \<in> set w. IsSpace c \<Longrightarrow> squeeze pending (w @ r) = squeeze (pending \<or> w \<noteq> []) r"
  by (induction w arbitrary: pending) auto

lemma squeeze_segment:
  "single_spaced s \<Longrightarrow> s \<noteq> [] \<Longrightarrow>
   squeeze pending (s @ tail) = (if pending then [space] else []) @ s @ squeeze False tail"
proof (induction s arbitrary: pending rule: single_spaced.induct)
  case 1
  then show ?case by simp
next
  case (2 c)
  then show ?case by simp
next
  case (3 c d cs)
  show ?case
  proof (cases "d = space")
    case True
    with "3.prems" have cs: "cs \<noteq> []" "single_spaced cs" and c: "\<not> IsSpace c" by auto
    from "3.IH"(1) [OF True cs(2,1), of True] True c show ?thesis by simp
  next
    case False
    with "3.prems" have d: "single_spaced (d # cs)" and c: "\<not> IsSpace c" by auto
    from "3.IH"(2) [OF False d, of False] c show ?thesis by simp
  qed
qed

lemma squeeze_woven:
  assumes "\<forall>s \<in> set segs. s \<noteq> [] \<and> single_spaced s"
  shows "length seps = length segs \<Longrightarrow> \<forall>w \<in> set seps. \<forall>c \<in> set w. IsSpace c \<Longrightarrow>
     \<forall>w \<in> set (butlast seps). w \<noteq> [] \<Longrightarrow>
     squeeze pending (concat (map2 (@) segs seps)) =
       (if segs = [] then [] else (if pending then [space] else []) @ Join segs [space])"
  using assms
proof (induction segs arbitrary: seps pending)
  case Nil
  then show ?case by simp
next
  case (Cons s segs)
  then obtain w seps' where seps: "seps = w # seps'" and len: "length seps' = length segs"
    by (cases seps) auto
  from Cons.prems have s: "s \<noteq> []" "single_spaced s" and w: "\<forall>c \<in> set w. IsSpace c"
    and rest: "\<forall>w \<in> set seps'. \<forall>c \<in> set w. IsSpace c" "\<forall>s \<in> set segs. s \<noteq> [] \<and> single_spaced s"
    by (auto simp: seps)
  let ?rest = "concat (map2 (@) segs seps')"
  have "squeeze pending (concat (map2 (@) (s # segs) seps)) = squeeze pending (s @ w @ ?rest)"
    by (simp add: seps)
  also have "\<dots> = (if pending then [space] else []) @ s @ squeeze (w \<noteq> []) ?rest"
    using squeeze_segment [OF s(2,1), of pending "w @ ?rest"] squeeze_spaces [OF w, of False ?rest]
    by simp
  finally have step: "squeeze pending (concat (map2 (@) (s # segs) seps)) =
      (if pending then [space] else []) @ s @ squeeze (w \<noteq> []) ?rest" .
  show ?case
  proof (cases "segs = []")
    case True
    with step show ?thesis by simp
  next
    case False
    with len have ne: "seps' \<noteq> []" by auto
    with Cons.prems(3) have wne: "w \<noteq> []" and inner: "\<forall>w \<in> set (butlast seps'). w \<noteq> []"
      by (auto simp: seps)
    from Cons.IH [OF len rest(1) inner rest(2), of True] False
    have "squeeze True ?rest = [space] @ Join segs [space]" by simp
    with step wne False show ?thesis by (simp add: Join_Cons)
  qed
qed

lemma Fields_eq_Nil: "Fields s = [] \<longleftrightarrow> Join (Fields s) [space] = []"
proof (cases "Fields s")
  case Nil
  then show ?thesis by simp
next
  case (Cons x xs)
  then have "x \<noteq> []" using Fields_chunks [of x s] by simp
  with Cons show ?thesis by (simp add: Join_Cons)
qed

lemma dropWhile_id: "xs = [] \<or> \<not> P (hd xs) \<Longrightarrow> dropWhile P xs = xs"
  by (cases xs) auto

lemma Join_Fields_woven:
  assumes "\<forall>s \<in> set segs. s \<noteq> [] \<and> single_spaced s"
      and "length seps = length segs"
      and "\<forall>w \<in> set (lead # seps). \<forall>c \<in> set w. IsSpace c"
      and "\<forall>w \<in> set (butlast seps). w \<noteq> []"
  shows "Join (Fields (lead @ concat (map2 (@) segs seps)) @ gens) [space] =
         Join (segs @ gens) [space]"
proof -
  let ?X = "concat (map2 (@) segs seps)"
  from assms(3) have lead: "\<forall>c \<in> set lead. IsSpace c" and seps: "\<forall>w \<in> set seps. \<forall>c \<in> set w. IsSpace c"
    by auto
  have X: "?X = [] \<or> \<not> IsSpace (hd ?X)"
  proof (cases segs)
    case Nil
    then show ?thesis by simp
  next
    case (Cons s segs')
    with assms(1,2) obtain w seps' where "seps = w # seps'" and "s \<noteq> []" "single_spaced s"
      by (cases seps) auto
    with Cons single_spaced_hd [of s] show ?thesis by simp
  qed
  have "dropWhile IsSpace (lead @ ?X) = dropWhile IsSpace ?X"
    using lead by (simp add: dropWhile_append3 dropWhile_append2)
  also have "\<dots> = ?X"
    using X by (rule dropWhile_id)
  finally have "Join (Fields (lead @ ?X)) [space] = squeeze False ?X"
    by (simp add: Join_Fields)
  also have "\<dots> = Join segs [space]"
    using squeeze_woven [OF assms(1,2) seps assms(4), of False] by simp
  finally have J: "Join (Fields (lead @ ?X)) [space] = Join segs [space]" .
  have "Fields (lead @ ?X) = [] \<longleftrightarrow> segs = []"
  proof -
    have "Fields (lead @ ?X) = [] \<longleftrightarrow> Join segs [space] = []"
      using Fields_eq_Nil [of "lead @ ?X"] J by simp
    also have "\<dots> \<longleftrightarrow> segs = []"
      using assms(1) by (cases segs) (auto simp: Join_Cons)
    finally show ?thesis .
  qed
  with J show ?thesis
    by (simp add: Join_append)
qed

text \<open>The loop returns the segments of \<open>new_segments\<close> after those it started with.\<close>

lemma tags_loop_new_segments:
  "tags_loop U omitempty fieldName tagValue tags acc = Inr (printed, tagValues) \<Longrightarrow>
   tagValues = snd acc @ new_segments U omitempty fieldName tagValue tags"
proof (induction tags arbitrary: acc)
  case Nil
  then show ?case by (auto simp: new_segments_def)
next
  case (Cons t tags)
  obtain p0 v0 where acc: "acc = (p0, v0)" by (cases acc)
  show ?case
  proof (cases "FindString (Tag t) tagValue = []")
    case True
    with Cons.prems acc obtain name out where
      cn: "case_name U (Case t) fieldName = Inr (name, out)" and
      rec: "tags_loop U omitempty fieldName tagValue tags
         (p0 @ out, v0 @ [segment omitempty (Tag t) name]) = Inr (printed, tagValues)"
      by (auto split: if_splits sum.splits)
    from Cons.IH [OF rec] cn True acc show ?thesis
      by (simp add: new_segments_def)
  next
    case False
    with Cons.prems acc have
      "tags_loop U omitempty fieldName tagValue tags (p0, v0) = Inr (printed, tagValues)"
      by (auto split: if_splits)
    from Cons.IH [OF this] False acc show ?thesis
      by (simp add: new_segments_def)
  qed
qed

lemma tags_loop_all_found:
  "(\<And>r. r \<in> set tags \<Longrightarrow> literal_name (Tag r) \<and> FindString (Tag r) tagValue \<noteq> []) \<Longrightarrow>
   tags_loop U omitempty fieldName tagValue tags acc = Inr acc"
proof (induction tags)
  case Nil
  show ?case by simp
next
  case (Cons t tags)
  then have "literal_name (Tag t)" "FindString (Tag t) tagValue \<noteq> []"
    and "tags_loop U omitempty fieldName tagValue tags acc = Inr acc"
    by auto
  then show ?case by (cases acc) simp
qed

text \<open>
  What the synthesizer returns for a tag of single-spaced segments separated by white space.
\<close>

lemma segments_then_new:
  assumes "\<forall>s \<in> set segs. s \<noteq> [] \<and> single_spaced s \<and> backtick \<notin> set s"
      and "length seps = length segs"
      and "\<forall>w \<in> set (lead # seps). \<forall>c \<in> set w. IsSpace c"
      and "\<forall>w \<in> set (butlast seps). w \<noteq> []"
      and "tagValue = [backtick] @ (lead @ concat (map2 (@) segs seps)) @ [backtick]"
      and "parseTags U omitempty fieldName tagValue tags = Inr (printed, value)"
  shows "value = [backtick] @ Join (segs @ new_segments U omitempty fieldName tagValue tags) [space]
           @ [backtick]"
proof -
  have "backtick \<notin> set (lead @ concat (map2 (@) segs seps))"
  proof
    assume "backtick \<in> set (lead @ concat (map2 (@) segs seps))"
    then consider "backtick \<in> set lead" | s w where "(s, w) \<in> set (zip segs seps)" "backtick \<in> set (s @ w)"
      by auto
    then show False
    proof cases
      case 1
      with assms(3) show False by auto
    next
      case 2
      then have sw: "s \<in> set segs" "w \<in> set seps" by (auto dest: set_zip_leftD set_zip_rightD)
      from 2(2) consider "backtick \<in> set s" | "backtick \<in> set w" by auto
      then show False
      proof cases
        case 1
        with assms(1) sw(1) show False by blast
      next
        case 2
        with assms(3) sw(2) have "IsSpace backtick" by (meson list.set_intros(2))
        then show False by simp
      qed
    qed
  qed
  then have trim: "Trim tagValue [backtick] = lead @ concat (map2 (@) segs seps)"
    unfolding assms(5) by (rule Trim_raw)
  from assms(6) obtain tagValues where
    loop: "tags_loop U omitempty fieldName tagValue tags ([], []) = Inr (printed, tagValues)"
    and val: "value = [backtick] @ Join (Fields (Trim tagValue [backtick]) @ tagValues) [space] @ [backtick]"
    by (auto simp: parseTags_def Let_def split: sum.splits if_splits)
  from tags_loop_new_segments [OF loop]
  have "tagValues = new_segments U omitempty fieldName tagValue tags" by simp
  moreover from assms(1) have "\<forall>s \<in> set segs. s \<noteq> [] \<and> single_spaced s" by simp
  ultimately show ?thesis
    using val trim Join_Fields_woven [OF _ assms(2,3,4)] by simp
qed

text \<open>
  Claim C5, as the program has it.  Let the tag names of the requests be literals of the
  pattern, and let the identifier of the field not begin with a lower-case letter.  Let the
  existing tag be a backtick-delimited string of segments, each followed by its separator,
  after some leading white space; let the separators be white space, non-empty but for the
  last one; and let the segments be non-empty and without a backtick, with white space inside
  them only as single spaces between other characters.  Then the synthesizer returns, and
  the new tag consists of these segments, each as it was and in the same order, followed by
  the generated segments (one for each request whose pattern has no match in the existing
  tag) in the order of the requests, all joined by single spaces and between backticks.
\<close>

theorem existing_segments_preserved:
  assumes "\<forall>s \<in> set segs. s \<noteq> [] \<and> single_spaced s \<and> backtick \<notin> set s"
      and "length seps = length segs"
      and "\<forall>w \<in> set (lead # seps). \<forall>c \<in> set w. IsSpace c"
      and "\<forall>w \<in> set (butlast seps). w \<noteq> []"
      and "tagValue = [backtick] @ (lead @ concat (map2 (@) segs seps)) @ [backtick]"
      and "\<forall>r \<in> set tags. literal_name (Tag r)"
      and "fieldName = [] \<or> \<not> IsLower U (hd fieldName)"
  shows "\<exists>printed. parseTags U omitempty fieldName tagValue tags =
           Inr (printed, [backtick] @
             Join (segs @ new_segments U omitempty fieldName tagValue tags) [space] @ [backtick])"
proof -
  from parseTags_returns [OF assms(6,7), of omitempty tagValue] obtain printed v where
    run: "parseTags U omitempty fieldName tagValue tags = Inr (printed, v)" by blast
  from segments_then_new [OF assms(1,2,3,4,5) run] run show ?thesis by blast
qed

theorem existing_segments_preserved_witness:
  "parseTags fast_paths_only False (str ''UserID'') (str ''`json:\"id\"   gorm:\"not null\"`'')
     [\<lparr>Tag = str ''json'', Case = str ''camel''\<rparr>, \<lparr>Tag = str ''bson'', Case = str ''snake''\<rparr>,
      \<lparr>Tag = str ''xml'', Case = str ''pascal''\<rparr>] =
   Inr ([], str ''`json:\"id\" gorm:\"not null\" bson:\"user_id\" xml:\"UserID\"`'')"
proof -
  let ?segs = "[str ''json:\"id\"'', str ''gorm:\"not null\"'']"
  let ?seps = "[str ''   '', []]"
  let ?tags = "[\<lparr>Tag = str ''json'', Case = str ''camel''\<rparr>, \<lparr>Tag = str ''bson'', Case = str ''snake''\<rparr>,
      \<lparr>Tag = str ''xml'', Case = str ''pascal''\<rparr>]"
  have 1: "\<forall>s \<in> set ?segs. s \<noteq> [] \<and> single_spaced s \<and> backtick \<notin> set s"
    by (simp add: str_def IsSpace_def char_defs)
  have 2: "length ?seps = length ?segs"
    by simp
  have 3: "\<forall>w \<in> set ([] # ?seps). \<forall>c \<in> set w. IsSpace c"
    by (simp add: str_def IsSpace_def)
  have 4: "\<forall>w \<in> set (butlast ?seps). w \<noteq> []"
    by (simp add: str_def)
  have 5: "str ''`json:\"id\"   gorm:\"not null\"`'' =
      [backtick] @ ([] @ concat (map2 (@) ?segs ?seps)) @ [backtick]"
    by (simp add: str_def char_defs)
  have 6: "\<forall>r \<in> set ?tags. literal_name (Tag r)"
    by (simp add: literal_name_def regexp_special_def str_def)
  have 7: "str ''UserID'' = [] \<or> \<not> IsLower fast_paths_only (hd (str ''UserID''))"
    by (simp add: str_def unicode_defs)
  have 8: "parseTags fast_paths_only False (str ''UserID'') (str ''`json:\"id\"   gorm:\"not null\"`'') ?tags =
      Inr ([], str ''`json:\"id\" gorm:\"not null\" bson:\"user_id\" xml:\"UserID\"`'')"
    by (simp add: eval_defs)
  from existing_segments_preserved [OF 1 2 3 4 5 6 7, of False] 8 show ?thesis by simp
qed

text \<open>
  A value with two spaces in a row does not come back as it was: the fields are cut at white
  space and joined by single spaces.
\<close>

theorem existing_segments_counterexample:
  "parseTags fast_paths_only False (str ''Name'') (str ''`gorm:\"a  b\"`'')
     [\<lparr>Tag = str ''json'', Case = str ''snake''\<rparr>] =
   Inr ([], str ''`gorm:\"a b\" json:\"name\"`'')"
  by (simp add: eval_defs)

text \<open>
  The pattern of a request survives the squeezing of white space, when its name has none.
\<close>

lemma FindString_found: "FindString lit s \<noteq> [] \<longleftrightarrow> found lit s"
  by (simp only: FindString_found_iff found_def)

lemma found_context: "found lit s \<Longrightarrow> found lit (a @ s @ b)"
proof -
  assume "found lit s"
  then obtain a' v b' where "s = a' @ lit @ [colon, quote] @ v @ [quote] @ b'"
    "v \<noteq> []" "quote \<notin> set v"
    unfolding found_def by blast
  then have "a @ s @ b = (a @ a') @ lit @ [colon, quote] @ v @ [quote] @ (b' @ b) \<and>
    v \<noteq> [] \<and> quote \<notin> set v" by simp
  then show ?thesis unfolding found_def by blast
qed

lemma not_found_Nil: "\<not> found lit []"
  by (simp add: found_def)

lemma squeeze_spaceless:
  "spaceless w \<Longrightarrow> squeeze pending (w @ rest) =
     (if w = [] then squeeze pending rest
      else (if pending then [space] else []) @ w @ squeeze False rest)"
  by (induction w arbitrary: pending) auto

lemma squeeze_value:
  "quote \<notin> set v \<Longrightarrow>
   \<exists>v'. squeeze pending (v @ quote # b) = v' @ quote # squeeze False b \<and>
        quote \<notin> set v' \<and> (v \<noteq> [] \<or> pending \<longrightarrow> v' \<noteq> [])"
proof (induction v arbitrary: pending)
  case Nil
  show ?case
    by (rule exI [of _ "if pending then [space] else []"]) simp
next
  case (Cons c v)
  then have c: "c \<noteq> quote" and v: "quote \<notin> set v" by auto
  show ?case
  proof (cases "IsSpace c")
    case True
    from Cons.IH [OF v, of True] obtain v' where
      "squeeze True (v @ quote # b) = v' @ quote # squeeze False b" "quote \<notin> set v'" "v' \<noteq> []"
      by auto
    with True show ?thesis by auto
  next
    case False
    from Cons.IH [OF v, of False] obtain v' where
      v': "squeeze False (v @ quote # b) = v' @ quote # squeeze False b" "quote \<notin> set v'"
      by auto
    show ?thesis
      by (rule exI [of _ "(if pending then [space, c] else [c]) @ v'"]) (use False c v' in auto)
  qed
qed

lemma found_squeeze:
  assumes "spaceless lit" and "found lit s"
  shows "found lit (squeeze pending s)"
proof -
  from assms(2) obtain a v b where s: "s = a @ lit @ [colon, quote] @ v @ [quote] @ b"
    and v: "v \<noteq> []" "quote \<notin> set v"
    unfolding found_def by blast
  have "found lit (squeeze pending (a @ lit @ [colon, quote] @ v @ [quote] @ b))"
  proof (induction a arbitrary: pending)
    case Nil
    have w: "spaceless (lit @ [colon, quote])" "lit @ [colon, quote] \<noteq> []"
      using assms(1) by simp_all
    from squeeze_value [OF v(2), of False b] v(1) obtain v' where
      v': "squeeze False (v @ quote # b) = v' @ quote # squeeze False b" "quote \<notin> set v'" "v' \<noteq> []"
      by auto
    have "squeeze pending ((lit @ [colon, quote]) @ v @ quote # b) =
        (if pending then [space] else []) @ (lit @ [colon, quote]) @ squeeze False (v @ quote # b)"
      using squeeze_spaceless [OF w(1), of pending "v @ quote # b"] by simp
    then have "squeeze pending ([] @ lit @ [colon, quote] @ v @ [quote] @ b) =
        (if pending then [space] else []) @ lit @ [colon, quote] @ v' @ [quote] @ squeeze False b"
      using v' by simp
    with v' show ?case unfolding found_def by blast
  next
    case (Cons c a)
    show ?case
    proof (cases "IsSpace c")
      case True
      with Cons [of True] show ?thesis by simp
    next
      case False
      from found_context [OF Cons [of False], of "if pending then [space, c] else [c]" "[]"] False
      show ?thesis by simp
    qed
  qed
  with s show ?thesis by simp
qed

lemma found_dropWhile:
  assumes "spaceless lit" and "found lit s"
  shows "found lit (dropWhile IsSpace s)"
proof -
  from assms(2) obtain a v b where s: "s = a @ lit @ [colon, quote] @ v @ [quote] @ b"
    and v: "v \<noteq> []" "quote \<notin> set v"
    unfolding found_def by blast
  have "found lit (dropWhile IsSpace (a @ lit @ [colon, quote] @ v @ [quote] @ b))"
  proof (induction a)
    case Nil
    have "dropWhile IsSpace ((lit @ [colon, quote]) @ v @ [quote] @ b) =
          (lit @ [colon, quote]) @ v @ [quote] @ b"
      using assms(1) by (cases lit) simp_all
    then show ?case using v unfolding found_def
      by (metis append_Nil append_assoc)
  next
    case (Cons c a)
    show ?case
    proof (cases "IsSpace c")
      case True
      with Cons show ?thesis by simp
    next
      case False
      have "found lit (c # a @ lit @ [colon, quote] @ v @ [quote] @ b)"
        unfolding found_def using v by (metis append_Cons)
      with False show ?thesis by simp
    qed
  qed
  with s show ?thesis by simp
qed

lemma found_Join_Fields:
  "spaceless lit \<Longrightarrow> found lit s \<Longrightarrow> found lit (Join (Fields s) [space])"
  by (simp add: Join_Fields found_squeeze found_dropWhile)

lemma found_inside_backticks:
  assumes "found lit ([backtick] @ body @ [backtick])" and "backtick \<notin> set lit"
  shows "found lit body"
proof -
  from assms(1) obtain a v b where
    e: "[backtick] @ body @ [backtick] = a @ lit @ [colon, quote] @ v @ [quote] @ b"
    and v: "v \<noteq> []" "quote \<notin> set v"
    unfolding found_def by blast
  have "a \<noteq> []"
  proof
    assume "a = []"
    with e have "backtick = hd (lit @ [colon, quote] @ v @ [quote] @ b)"
      by (metis append_Cons append_Nil list.sel(1))
    with assms(2) show False by (cases lit) auto
  qed
  then obtain a' where a: "a = backtick # a'"
    using e by (cases a) auto
  have "b \<noteq> []"
  proof
    assume "b = []"
    with e have "last ([backtick] @ body @ [backtick]) = last (a @ lit @ [colon, quote] @ v @ [quote])"
      by simp
    then show False by simp
  qed
  then obtain b' where b: "b = b' @ [backtick]"
    using e by (cases b rule: rev_cases) auto
  from e a b have "body = a' @ lit @ [colon, quote] @ v @ [quote] @ b'"
    by simp
  with v show ?thesis unfolding found_def by blast
qed

text \<open>
  The names that the converters return are made of the runes of the identifier, their
  lower-case forms, the upper-case forms of these, and underscores.
\<close>

lemma value_rune_underscore: "value_rune 0x5F"
  by (simp add: value_rune_def IsSpace_def char_defs)

lemma snake_step_set:
  "i < length inp \<Longrightarrow>
   set (snake_step U inp out i) \<subseteq> set out \<union> {0x5F} \<union> ToLower U ` set inp"
proof -
  assume "i < length inp"
  then have "inp ! i \<in> set inp" by simp
  then have "ToLower U (inp ! i) \<in> ToLower U ` set inp" by (rule imageI)
  then show ?thesis
    unfolding snake_step_def Let_def by (simp split: if_splits) blast
qed

lemma foldl_snake_set:
  "\<forall>i \<in> set idx. i < length inp \<Longrightarrow>
   set (foldl (snake_step U inp) out idx) \<subseteq> set out \<union> {0x5F} \<union> ToLower U ` set inp"
proof (induction idx arbitrary: out)
  case Nil
  show ?case by auto
next
  case (Cons i idx)
  then have i: "i < length inp" and rest: "\<forall>i \<in> set idx. i < length inp" by auto
  from Cons.IH [OF rest, of "snake_step U inp out i"] snake_step_set [OF i, of U out]
  show ?case by auto
qed

lemma ToSnake_set: "set (ToSnake U inp) \<subseteq> {0x5F} \<union> ToLower U ` set inp"
  using foldl_snake_set [of "[0..<length inp]" inp U "[]"] by (simp add: ToSnake_def)

lemma ToSnake_nonempty: "inp \<noteq> [] \<Longrightarrow> ToSnake U inp \<noteq> []"
proof -
  assume "inp \<noteq> []"
  then obtain n where n: "length inp = Suc n" by (cases inp) auto
  show ?thesis
    by (simp add: ToSnake_def n snake_step_def Let_def)
qed

lemma ToCamel_set:
  assumes "ToCamel U s = Inr r"
  shows "length r = length s \<and>
         set r \<subseteq> set s \<union> ToLower U ` set s \<union> (\<lambda>c. ToUpper U (ToLower U c)) ` set s"
proof -
  let ?P = "\<lambda>r. \<not> IsLower U r"
  define n where "n = length (takeWhile ?P s)"
  define runes where "runes = map (ToLower U) (takeWhile ?P s) @ dropWhile ?P s"
  have loop: "camel_loop U s 0 = (runes, n)"
    using camel_loop_run [of 0 s U] by (simp add: n_def runes_def)
  have len: "length runes = length s"
    unfolding runes_def
    by (metis length_append length_map takeWhile_dropWhile_id)
  have sub: "set runes \<subseteq> set s \<union> ToLower U ` set s"
    unfolding runes_def by (auto dest: set_takeWhileD set_dropWhileD)
  show ?thesis
  proof (cases "n \<noteq> 1 \<and> n \<noteq> length s")
    case False
    with assms loop have "r = runes"
      by (auto simp: ToCamel_def len)
    with len sub show ?thesis by auto
  next
    case True
    with assms loop len have n0: "n \<noteq> 0" and r: "r = runes[n - 1 := ToUpper U (runes ! (n - 1))]"
      by (auto simp: ToCamel_def split: if_splits)
    from n0 have lt: "n - 1 < length (takeWhile ?P s)" by (simp add: n_def)
    then have "runes ! (n - 1) = ToLower U (takeWhile ?P s ! (n - 1))"
      by (simp add: runes_def nth_append)
    moreover from lt have "takeWhile ?P s ! (n - 1) \<in> set s"
      by (meson nth_mem set_takeWhileD)
    ultimately have "ToUpper U (runes ! (n - 1)) \<in> (\<lambda>c. ToUpper U (ToLower U c)) ` set s"
      by auto
    with sub set_update_subset_insert [of runes "n - 1" "ToUpper U (runes ! (n - 1))"] r len
    show ?thesis by auto
  qed
qed

lemma case_name_value:
  assumes "case_name U c fieldName = Inr (name, out)" and "known_case c"
      and "fieldName \<noteq> []"
      and "\<forall>x \<in> set fieldName. value_rune x \<and> value_rune (ToLower U x) \<and>
             value_rune (ToUpper U (ToLower U x))"
  shows "name \<noteq> [] \<and> (\<forall>x \<in> set name. value_rune x)"
proof -
  consider "c = case_snake" | "c \<noteq> case_snake" "c = case_camel"
    | "c \<noteq> case_snake" "c \<noteq> case_camel" "c = case_pascal"
    using assms(2) unfolding known_case_def by blast
  then show ?thesis
  proof cases
    case 1
    with assms(1) have "name = ToSnake U fieldName" by (simp add: case_name_def)
    with ToSnake_set [of U fieldName] ToSnake_nonempty [OF assms(3), of U] assms(4)
      value_rune_underscore
    show ?thesis by auto
  next
    case 2
    with assms(1) have "ToCamel U fieldName = Inr name"
      by (auto simp: case_name_def split: sum.splits)
    from ToCamel_set [OF this] assms(3,4) show ?thesis by auto
  next
    case 3
    with assms(1) have "name = fieldName" by (simp add: case_name_def)
    with assms(3,4) show ?thesis by auto
  qed
qed

lemma omitempty_runes: "\<forall>x \<in> set (str '',omitempty''). value_rune x"
  by (simp add: str_def value_rune_def IsSpace_def char_defs)

lemma segment_good:
  assumes "\<forall>x \<in> set t. \<not> IsSpace x \<and> x \<noteq> backtick"
      and "\<forall>x \<in> set name. value_rune x" and "name \<noteq> [] \<or> omitempty"
  shows "found t (segment omitempty t name) \<and> segment omitempty t name \<noteq> [] \<and>
         spaceless (segment omitempty t name) \<and> backtick \<notin> set (segment omitempty t name)"
proof -
  define v where "v = name @ (if omitempty then str '',omitempty'' else [])"
  have seg: "segment omitempty t name = [] @ t @ [colon, quote] @ v @ [quote] @ []"
    by (simp add: segment_def v_def)
  from assms(2) omitempty_runes have v: "\<forall>x \<in> set v. value_rune x"
    by (auto simp: v_def)
  from assms(3) have ne: "v \<noteq> []" by (auto simp: v_def str_def)
  from v have "quote \<notin> set v" by (auto simp: value_rune_def)
  with seg ne have "found t (segment omitempty t name)"
    unfolding found_def by blast
  moreover have "spaceless (segment omitempty t name)" "backtick \<notin> set (segment omitempty t name)"
    using assms(1) v by (auto simp: seg spaceless_def value_rune_def)
  ultimately show ?thesis by (simp add: seg)
qed

text \<open>
  The second run: on the tag that a first run returned, the synthesizer finds the pattern of
  every request, generates nothing and returns the tag as it is.
\<close>

lemma second_run_same:
  assumes tg: "\<forall>r \<in> set tags. plain_name (Tag r) \<and> known_case (Case r)"
      and fn: "fieldName \<noteq> []"
      and fr: "\<forall>x \<in> set fieldName. value_rune x \<and> value_rune (ToLower U x) \<and>
                 value_rune (ToUpper U (ToLower U x))"
      and raw: "tagValue = [] \<or>
                 (\<exists>body. tagValue = [backtick] @ body @ [backtick] \<and> backtick \<notin> set body)"
      and run: "parseTags U omitempty fieldName tagValue tags = Inr (printed, value)"
  shows "parseTags U omitempty fieldName value tags = Inr ([], value)"
proof -
  define body where "body = Trim tagValue [backtick]"
  have body: "backtick \<notin> set body"
    and inside: "\<And>lit. found lit tagValue \<Longrightarrow> backtick \<notin> set lit \<Longrightarrow> found lit body"
    using raw
    by (auto simp: body_def Trim_Nil Trim_raw not_found_Nil found_inside_backticks
        simp del: append.simps)
  from run obtain gens where
    loop: "tags_loop U omitempty fieldName tagValue tags ([], []) = Inr (printed, gens)"
    and val: "value = [backtick] @ Join (Fields body @ gens) [space] @ [backtick]"
    by (auto simp: parseTags_def body_def Let_def split: sum.splits if_splits)
  have gen: "found (Tag r) g \<and> g \<noteq> [] \<and> spaceless g \<and> backtick \<notin> set g \<and> g \<in> set gens"
    if r: "r \<in> set tags" "FindString (Tag r) tagValue = []"
      and g: "g = segment omitempty (Tag r)
        (case case_name U (Case r) fieldName of Inl e \<Rightarrow> [] | Inr (name, out) \<Rightarrow> name)"
    for r g
  proof -
    from tags_loop_generates [OF loop r] obtain name out ys zs where
      cn: "case_name U (Case r) fieldName = Inr (name, out)"
      and mem: "gens = ys @ [segment omitempty (Tag r) name] @ zs"
      by auto
    from tg r(1) have t: "\<forall>x \<in> set (Tag r). \<not> IsSpace x \<and> x \<noteq> backtick"
      and k: "known_case (Case r)"
      by (auto simp: plain_name_def)
    from case_name_value [OF cn k fn fr]
    have "(\<forall>x \<in> set name. value_rune x) \<and> (name \<noteq> [] \<or> omitempty)"
      by simp
    with segment_good [OF t, of name omitempty] cn g mem show ?thesis by simp
  qed
  define parts where "parts = Fields body @ gens"
  have gens: "gens = new_segments U omitempty fieldName tagValue tags"
    using tags_loop_new_segments [OF loop] by simp
  have parts: "x \<noteq> [] \<and> spaceless x \<and> backtick \<notin> set x" if "x \<in> set parts" for x
  proof (cases "x \<in> set (Fields body)")
    case True
    with Fields_chunks [OF True] Fields_subset [OF True] body show ?thesis by auto
  next
    case False
    with that have "x \<in> set gens" by (simp add: parts_def)
    then obtain r where "r \<in> set tags" "FindString (Tag r) tagValue = []"
      "x = segment omitempty (Tag r)
        (case case_name U (Case r) fieldName of Inl e \<Rightarrow> [] | Inr (name, out) \<Rightarrow> name)"
      unfolding gens new_segments_def by auto
    from gen [OF this] show ?thesis by simp
  qed
  have bt: "backtick \<notin> set (Join parts [space])"
    using Join_set [of backtick parts "[space]"] parts by auto
  have val': "value = [backtick] @ Join parts [space] @ [backtick]"
    using val by (simp add: parts_def)
  have trim: "Trim value [backtick] = Join parts [space]"
    unfolding val' using bt by (rule Trim_raw)
  have fields: "Fields (Trim value [backtick]) = parts"
    unfolding trim using parts by (intro Fields_Join_chunks) auto
  have all_found: "literal_name (Tag r) \<and> FindString (Tag r) value \<noteq> []" if r: "r \<in> set tags" for r
  proof -
    from tg r have lit: "literal_name (Tag r)" and sp: "spaceless (Tag r)"
      and nb: "backtick \<notin> set (Tag r)"
      by (auto simp: plain_name_def spaceless_def)
    have "found (Tag r) (Join parts [space])"
    proof (cases "FindString (Tag r) tagValue = []")
      case True
      from gen [OF r True refl] obtain g where g: "found (Tag r) g" "g \<in> set parts"
        by (auto simp: parts_def)
      from Join_part [OF g(2), of "[space]"] obtain a b where "Join parts [space] = a @ g @ b"
        by blast
      with found_context [OF g(1), of a b] show ?thesis by simp
    next
      case False
      then have "found (Tag r) tagValue" by (simp add: FindString_found)
      from found_Join_Fields [OF sp inside [OF this nb]]
      have f: "found (Tag r) (Join (Fields body) [space])" .
      then have "Fields body \<noteq> []" by (auto simp: not_found_Nil)
      then have "Join parts [space] = [] @ Join (Fields body) [space] @
          (if gens = [] then [] else [space] @ Join gens [space])"
        by (simp add: parts_def Join_append)
      with found_context [OF f, of "[]" "if gens = [] then [] else [space] @ Join gens [space]"]
      show ?thesis by simp
    qed
    from found_context [OF this, of "[backtick]" "[backtick]"]
    have "FindString (Tag r) value \<noteq> []"
      unfolding val' by (simp only: FindString_found)
    with lit show ?thesis by simp
  qed
  have "tags_loop U omitempty fieldName value tags ([], []) = Inr ([], [])"
    using all_found by (intro tags_loop_all_found) auto
  then have "parseTags U omitempty fieldName value tags =
      Inr ([], [backtick] @ Join parts [space] @ [backtick])"
    by (simp add: parseTags_def fields)
  then show ?thesis
    by (simp only: val')
qed

text \<open>
  Claim C4, as the program has it.  Let the tag names of the requests be literals of the
  pattern without white space and backticks, and their case styles be known; let the
  identifier be non-empty and not begin with a lower-case letter, and let neither its runes
  nor their case-mapped forms be white space, quotes or backticks, as is the case for every
  exported identifier of the language; and let the existing tag be empty or a
  backtick-delimited string.  Then the synthesizer returns a tag and, run again on that tag,
  returns the same tag and prints nothing: the second run generates no segment.
\<close>

theorem synthesizer_idempotent:
  assumes "\<forall>r \<in> set tags. plain_name (Tag r) \<and> known_case (Case r)"
      and "fieldName \<noteq> []" and "\<not> IsLower U (hd fieldName)"
      and "\<forall>x \<in> set fieldName. value_rune x \<and> value_rune (ToLower U x) \<and>
             value_rune (ToUpper U (ToLower U x))"
      and "tagValue = [] \<or>
             (\<exists>body. tagValue = [backtick] @ body @ [backtick] \<and> backtick \<notin> set body)"
  shows "\<exists>printed value.
           parseTags U omitempty fieldName tagValue tags = Inr (printed, value) \<and>
           parseTags U omitempty fieldName value tags = Inr ([], value)"
proof -
  from assms(1) have "\<forall>r \<in> set tags. literal_name (Tag r)"
    by (simp add: plain_name_def)
  from parseTags_returns [OF this, of fieldName U omitempty tagValue] assms(3)
  obtain printed v where
    run: "parseTags U omitempty fieldName tagValue tags = Inr (printed, v)" by blast
  from second_run_same [OF assms(1,2,4,5) run] run show ?thesis by blast
qed

theorem synthesizer_idempotent_witness:
  "parseTags fast_paths_only False (str ''UserID'') (str ''`json:\"id\"   xml:\"x y\"`'')
     [\<lparr>Tag = str ''json'', Case = str ''camel''\<rparr>, \<lparr>Tag = str ''bson'', Case = str ''snake''\<rparr>] =
     Inr ([], str ''`json:\"id\" xml:\"x y\" bson:\"user_id\"`'') \<and>
   parseTags fast_paths_only False (str ''UserID'') (str ''`json:\"id\" xml:\"x y\" bson:\"user_id\"`'')
     [\<lparr>Tag = str ''json'', Case = str ''camel''\<rparr>, \<lparr>Tag = str ''bson'', Case = str ''snake''\<rparr>] =
     Inr ([], str ''`json:\"id\" xml:\"x y\" bson:\"user_id\"`'')"
proof -
  let ?tags = "[\<lparr>Tag = str ''json'', Case = str ''camel''\<rparr>, \<lparr>Tag = str ''bson'', Case = str ''snake''\<rparr>]"
  have 1: "\<forall>r \<in> set ?tags. plain_name (Tag r) \<and> known_case (Case r)"
    by (simp add: plain_name_def known_case_def literal_name_def regexp_special_def str_def
        IsSpace_def char_defs case_camel_def case_snake_def)
  have 2: "str ''UserID'' \<noteq> []"
    by (simp add: str_def)
  have 3: "\<forall>x \<in> set (str ''UserID''). value_rune x \<and> value_rune (ToLower fast_paths_only x) \<and>
      value_rune (ToUpper fast_paths_only (ToLower fast_paths_only x))"
    by (simp add: str_def value_rune_def IsSpace_def char_defs unicode_defs)
  have 4: "str ''`json:\"id\"   xml:\"x y\"`'' = [] \<or>
      (\<exists>body. str ''`json:\"id\"   xml:\"x y\"`'' = [backtick] @ body @ [backtick] \<and>
         backtick \<notin> set body)"
    by (intro disjI2 exI [of _ "str ''json:\"id\"   xml:\"x y\"''"]) (simp add: str_def char_defs)
  have 5: "parseTags fast_paths_only False (str ''UserID'') (str ''`json:\"id\"   xml:\"x y\"`'') ?tags =
      Inr ([], str ''`json:\"id\" xml:\"x y\" bson:\"user_id\"`'')"
    by (simp add: eval_defs)
  have 6: "\<not> IsLower fast_paths_only (hd (str ''UserID''))"
    by (simp add: str_def unicode_defs)
  have 7: "parseTags fast_paths_only False (str ''UserID'')
      (str ''`json:\"id\" xml:\"x y\" bson:\"user_id\"`'') ?tags =
      Inr ([], str ''`json:\"id\" xml:\"x y\" bson:\"user_id\"`'')"
    by (simp add: eval_defs)
  from synthesizer_idempotent [OF 1 2 6 3 4, of False] 5 7 show ?thesis
    by simp
qed

text \<open>
  A tag name with two spaces in a row is found by the second run, which then joins the
  fields with single spaces: the tag changes.  A request with an unknown case style leaves a
  segment with an empty value, which the second run does not find: the segment is generated
  once more.
\<close>

theorem idempotence_counterexample:
  "parseTags fast_paths_only False (str ''Name'') []
     [\<lparr>Tag = str ''a  b'', Case = str ''snake''\<rparr>] = Inr ([], str ''`a  b:\"name\"`'') \<and>
   parseTags fast_paths_only False (str ''Name'') (str ''`a  b:\"name\"`'')
     [\<lparr>Tag = str ''a  b'', Case = str ''snake''\<rparr>] = Inr ([], str ''`a b:\"name\"`'') \<and>
   parseTags fast_paths_only False (str ''Name'') []
     [\<lparr>Tag = str ''json'', Case = str ''kebab''\<rparr>] =
     Inr ([str ''Unknown case option kebab''], str ''`json:\"\"`'') \<and>
   parseTags fast_paths_only False (str ''Name'') (str ''`json:\"\"`'')
     [\<lparr>Tag = str ''json'', Case = str ''kebab''\<rparr>] =
     Inr ([str ''Unknown case option kebab''], str ''`json:\"\" json:\"\"`'')"
  by (simp add: eval_defs)

section \<open>Properties of the record rewriter\<close>

lemmas field_defs = process_field_def first_byte_def utf8_first_def

text \<open>
  Claim C6 at a failing input.  The field name is the French word for summer: the runes
  U+00E9, \<open>t\<close>, U+00E9, whose first letter is the lower-case e with an acute accent.  The
  program tests the first byte of the name, 0xC3, which read as a rune is an upper-case
  letter of Latin-1, and goes on: with the request \<open>json:pascal\<close> the field, which had no
  tag, gets one, and with \<open>json:camel\<close> the converter panics.
\<close>

theorem lowercase_first_letter_rewritten:
  "IsLower U (hd [0xE9, 0x74, 0xE9]) \<and>
   first_byte [0xE9, 0x74, 0xE9] = Inr 0xC3 \<and> IsUpper U 0xC3 \<and>
   processTags U False [Field_ast [[0xE9, 0x74, 0xE9]] ty None]
       [\<lparr>Tag = str ''json'', Case = str ''pascal''\<rparr>] remove =
     Inr ([], [Field_ast [[0xE9, 0x74, 0xE9]] ty
       (Some \<lparr>ValuePos = Pos ty + 1, Kind = STRING,
              Value = str ''`json:\"'' @ [0xE9, 0x74, 0xE9] @ str ''\"`''\<rparr>)]) \<and>
   processTags U False [Field_ast [[0xE9, 0x74, 0xE9]] ty None]
       [\<lparr>Tag = str ''json'', Case = str ''camel''\<rparr>] remove = Inl IndexOutOfRange"
  by (simp add: eval_defs field_defs)

text \<open>
  What the test does guard: a field whose name has a first byte that is not an upper-case
  letter of Latin-1 is left as it is; so is every field whose name begins with an ASCII
  character other than an upper-case letter.
\<close>

lemma process_field_not_upper:
  assumes "Names fld = name # names" and "first_byte name = Inr b" and "\<not> IsUpper U b"
  shows "process_field U omitempty tags remove fld = Inr ([], fld)"
  using assms by (simp add: process_field_def)

lemma process_field_ascii_lower:
  assumes "Names fld = (c # cs) # names" and "c \<le> MaxASCII" and "\<not> IsUpper U c"
  shows "process_field U omitempty tags remove fld = Inr ([], fld)"
  using assms by (simp add: process_field_def first_byte_def utf8_first_def MaxASCII_def)

text \<open>The rewriter leaves the names and the types of the fields as they are.\<close>

lemma process_field_Names:
  "process_field U omitempty tags remove fld = Inr (printed, fld') \<Longrightarrow> Names fld' = Names fld"
  by (auto simp: process_field_def Let_def split: list.splits sum.splits if_splits)

lemma process_field_Type:
  "process_field U omitempty tags remove fld = Inr (printed, fld') \<Longrightarrow> Type fld' = Type fld"
  by (auto simp: process_field_def Let_def split: list.splits sum.splits if_splits)

lemma processTags_Type:
  "processTags U omitempty flds tags remove = Inr (printed, flds') \<Longrightarrow>
   map Names flds' = map Names flds \<and> map Type flds' = map Type flds"
proof (induction flds arbitrary: printed flds')
  case Nil
  then show ?case by simp
next
  case (Cons fld flds)
  from Cons.prems obtain pr1 fld' pr2 rest where
    f: "process_field U omitempty tags remove fld = Inr (pr1, fld')"
    and r: "processTags U omitempty flds tags remove = Inr (pr2, rest)"
    and e: "flds' = fld' # rest"
    by (auto split: sum.splits)
  from Cons.IH [OF r] process_field_Names [OF f] process_field_Type [OF f] e
  show ?case by simp
qed

text \<open>
  The rewriter returns on fields whose names begin with ASCII characters, when the tag names
  are literals of the pattern.
\<close>

lemma process_field_returns:
  assumes "\<forall>r \<in> set tags. literal_name (Tag r)" and "ascii_first fld"
  shows "\<exists>printed fld'. process_field U omitempty tags remove fld = Inr (printed, fld')"
proof (cases "Names fld")
  case Nil
  then show ?thesis by (simp add: process_field_def)
next
  case (Cons name names)
  with assms(2) obtain c cs where name: "name = c # cs" and c: "c \<le> MaxASCII"
    by (cases name) (auto simp: ascii_first_def)
  then have fb: "first_byte name = Inr c"
    by (simp add: first_byte_def utf8_first_def MaxASCII_def)
  show ?thesis
  proof (cases "IsUpper U c")
    case False
    with Cons fb show ?thesis by (simp add: process_field_def)
  next
    case True
    with c have "\<not> IsLower U c"
      by (auto simp: unicode_defs)
    with name have ok: "name = [] \<or> \<not> IsLower U (hd name)" by simp
    define v where "v = Value (case (if remove then None else FieldTag fld) of
        None \<Rightarrow> \<lparr>ValuePos = Pos (Type fld) + 1, Kind = STRING, Value = []\<rparr> | Some l \<Rightarrow> l)"
    from parseTags_returns [OF assms(1) ok, of omitempty v] obtain printed newTags where
      "parseTags U omitempty name v tags = Inr (printed, newTags)" by blast
    with Cons fb True show ?thesis
      by (simp add: process_field_def Let_def v_def)
  qed
qed

lemma processTags_returns:
  assumes "\<forall>r \<in> set tags. literal_name (Tag r)" and "\<forall>fld \<in> set flds. ascii_first fld"
  shows "\<exists>printed flds'. processTags U omitempty flds tags remove = Inr (printed, flds')"
  using assms(2)
proof (induction flds)
  case Nil
  show ?case by simp
next
  case (Cons fld flds)
  then obtain pr2 flds' where "processTags U omitempty flds tags remove = Inr (pr2, flds')"
    by auto
  moreover from process_field_returns [OF assms(1), of fld U omitempty remove] Cons.prems
  obtain pr1 fld' where "process_field U omitempty tags remove fld = Inr (pr1, fld')"
    by auto
  ultimately show ?case by simp
qed

section \<open>Properties of the tree driver\<close>

text \<open>The walk returns on such trees.\<close>

lemma Inspect_returns:
  shows "\<forall>r \<in> set tags. literal_name (Tag r) \<Longrightarrow> plain_tree t \<Longrightarrow>
         \<exists>printed t'. Inspect U omitempty tags remove t = Inr (printed, t')"
    and "\<forall>r \<in> set tags. literal_name (Tag r) \<Longrightarrow> \<forall>c \<in> set ts. plain_tree c \<Longrightarrow>
         \<exists>printed ts'. Inspect_children U omitempty tags remove ts = Inr (printed, ts')"
proof (induction U omitempty tags remove t and U omitempty tags remove ts
    rule: Inspect_Inspect_children.induct)
  case (1 U omitempty tags remove p flds)
  from processTags_returns [OF "1.prems"(1), of flds U omitempty remove] "1.prems"(2)
  obtain printed flds' where "processTags U omitempty flds tags remove = Inr (printed, flds')"
    by auto
  then show ?case by simp
next
  case (2 U omitempty tags remove p cs)
  from "2.IH" [OF "2.prems"(1)] "2.prems"(2)
  obtain printed cs' where "Inspect_children U omitempty tags remove cs = Inr (printed, cs')"
    by auto
  then show ?case by simp
next
  case (3 U omitempty tags remove)
  show ?case by simp
next
  case (4 U omitempty tags remove c cs)
  from "4.IH"(1) [OF "4.prems"(1)] "4.prems"(2)
  obtain pr1 c' where c: "Inspect U omitempty tags remove c = Inr (pr1, c')"
    by auto
  from "4.IH"(2) [OF c refl "4.prems"(1)] "4.prems"(2)
  obtain pr2 cs' where "Inspect_children U omitempty tags remove cs = Inr (pr2, cs')"
    by auto
  with c show ?case by simp
qed

text \<open>What the walk has done at a struct type that a path leads to.\<close>

lemma Inspect_child_at:
  shows "Inspect U omitempty tags remove t = Inr (printed, t') \<longrightarrow>
      (\<forall>path p flds. child_at path t = Some (StructType p flds) \<longrightarrow>
         (\<exists>pr flds'. processTags U omitempty flds tags remove = Inr (pr, flds') \<and>
            child_at path t' = Some (StructType p flds')))"
   and "Inspect_children U omitempty tags remove ts = Inr (printed, ts') \<longrightarrow>
      length ts' = length ts \<and>
      (\<forall>i path p flds. i < length ts \<longrightarrow> child_at path (ts ! i) = Some (StructType p flds) \<longrightarrow>
         (\<exists>pr flds'. processTags U omitempty flds tags remove = Inr (pr, flds') \<and>
            child_at path (ts' ! i) = Some (StructType p flds')))"
proof (induction U omitempty tags remove t and U omitempty tags remove ts
    arbitrary: printed t' and printed ts' rule: Inspect_Inspect_children.induct)
  case (1 U omitempty tags remove p flds)
  show ?case 
  proof (intro impI allI)
    fix path q flds0
    assume a: "Inspect U omitempty tags remove (StructType p flds) = Inr (printed, t')"
      and c: "child_at path (StructType p flds) = Some (StructType q flds0)"
    from c have path: "path = []" and "q = p" "flds0 = flds" by (cases path; simp)+
    with a show "\<exists>pr flds'. processTags U omitempty flds0 tags remove = Inr (pr, flds') \<and>
            child_at path t' = Some (StructType q flds')"
      by (auto split: sum.splits)
  qed
next
  case (2 U omitempty tags remove p cs)
  show ?case
  proof (intro impI allI)
    fix path q flds
    assume a: "Inspect U omitempty tags remove (Node p cs) = Inr (printed, t')"
      and c: "child_at path (Node p cs) = Some (StructType q flds)"
    from a obtain cs' where ic: "Inspect_children U omitempty tags remove cs = Inr (printed, cs')"
      and t': "t' = Node p cs'"
      by (auto split: sum.splits)
    from c obtain i rest where path: "path = i # rest" and i: "i < length cs"
      and c': "child_at rest (cs ! i) = Some (StructType q flds)"
      by (cases path) (auto split: if_splits)
    from "2.IH" ic i c' have "length cs' = length cs" 
      and "\<exists>pr flds'. processTags U omitempty flds tags remove = Inr (pr, flds') \<and>
            child_at rest (cs' ! i) = Some (StructType q flds')"
      by blast+
    with t' path i show "\<exists>pr flds'. processTags U omitempty flds tags remove = Inr (pr, flds') \<and>
            child_at path t' = Some (StructType q flds')"
      by auto
  qed
next
  case (3 U omitempty tags remove)
  show ?case by auto
next
  case (4 U omitempty tags remove c cs)
  show ?case
  proof (intro impI)
    assume a: "Inspect_children U omitempty tags remove (c # cs) = Inr (printed, ts')"
    then obtain pr1 c' pr2 cs' where
      h: "Inspect U omitempty tags remove c = Inr (pr1, c')"
      and t: "Inspect_children U omitempty tags remove cs = Inr (pr2, cs')"
      and ts': "ts' = c' # cs'"
      by (auto split: sum.splits)
    from "4.IH"(1) h have H: "\<And>path p flds. child_at path c = Some (StructType p flds) \<Longrightarrow>
         (\<exists>pr flds'. processTags U omitempty flds tags remove = Inr (pr, flds') \<and>
            child_at path c' = Some (StructType p flds'))"
      by blast
    from "4.IH"(2) [OF h refl] t have len: "length cs' = length cs"
      and T: "\<And>i path p flds. i < length cs \<Longrightarrow> child_at path (cs ! i) = Some (StructType p flds) \<Longrightarrow>
         (\<exists>pr flds'. processTags U omitempty flds tags remove = Inr (pr, flds') \<and>
            child_at path (cs' ! i) = Some (StructType p flds'))"
      by blast+
    show "length ts' = length (c # cs) \<and>
      (\<forall>i path p flds. i < length (c # cs) \<longrightarrow> child_at path ((c # cs) ! i) = Some (StructType p flds) \<longrightarrow>
         (\<exists>pr flds'. processTags U omitempty flds tags remove = Inr (pr, flds') \<and>
            child_at path (ts' ! i) = Some (StructType p flds')))"
    proof (intro conjI allI impI)
      show "length ts' = length (c # cs)" using len ts' by simp
    next
      fix i path p flds
      assume "i < length (c # cs)" "child_at path ((c # cs) ! i) = Some (StructType p flds)"
      then show "\<exists>pr flds'. processTags U omitempty flds tags remove = Inr (pr, flds') \<and>
            child_at path (ts' ! i) = Some (StructType p flds')"
        using H T ts' by (cases i) auto
    qed
  qed
qed


text \<open>
  Claim C3, as the program has it.  Let the tag names of the requests be literals of the
  pattern, and let a path through nodes other than struct types lead to a struct type, at any
  depth of the tree.  The walk returns when every field of the struct types it reaches has a
  first name that is not empty and begins with an ASCII character.  Whenever the walk
  returns, that struct type has been handed to the record rewriter and holds the fields the
  rewriter returned; the types of its fields, and with them the struct types nested inside,
  are as they were.
\<close>

theorem Inspect_rewrites_outer_structs:
  assumes "child_at path t = Some (StructType p flds)"
      and "\<forall>r \<in> set tags. literal_name (Tag r)"
  shows "(plain_tree t \<longrightarrow> (\<exists>printed t'. Inspect U omitempty tags remove t = Inr (printed, t'))) \<and>
         (\<forall>printed t'. Inspect U omitempty tags remove t = Inr (printed, t') \<longrightarrow>
            (\<exists>pr flds'. processTags U omitempty flds tags remove = Inr (pr, flds') \<and>
               child_at path t' = Some (StructType p flds') \<and> map Type flds' = map Type flds))"
proof (intro conjI allI impI)
  assume "plain_tree t"
  with assms(2) show "\<exists>printed t'. Inspect U omitempty tags remove t = Inr (printed, t')"
    using Inspect_returns(1) [of tags t U omitempty remove] by blast
next
  fix printed t'
  assume i: "Inspect U omitempty tags remove t = Inr (printed, t')"
  from Inspect_child_at(1) [of U omitempty tags remove t printed t'] i assms(1)
  obtain pr flds' where h: "processTags U omitempty flds tags remove = Inr (pr, flds')"
    "child_at path t' = Some (StructType p flds')"
    by blast
  from processTags_Type [OF h(1)] h
  show "\<exists>pr flds'. processTags U omitempty flds tags remove = Inr (pr, flds') \<and>
          child_at path t' = Some (StructType p flds') \<and> map Type flds' = map Type flds"
    by blast
qed

theorem Inspect_rewrites_outer_structs_witness:
  "Inspect fast_paths_only False [\<lparr>Tag = str ''json'', Case = str ''snake''\<rparr>] False
     (Node 0 [Node 1 [], Node 2 [StructType 3 [Field_ast [str ''UserID''] (Node 4 []) None]]]) =
   Inr ([], Node 0 [Node 1 [], Node 2 [StructType 3 [Field_ast [str ''UserID''] (Node 4 [])
     (Some \<lparr>ValuePos = 5, Kind = STRING, Value = str ''`json:\"user_id\"`''\<rparr>)]]]) \<and>
   child_at [1, 0] (Node 0 [Node 1 [], Node 2 [StructType 3 [Field_ast [str ''UserID''] (Node 4 []) None]]]) =
     Some (StructType 3 [Field_ast [str ''UserID''] (Node 4 []) None]) \<and>
   processTags fast_paths_only False [Field_ast [str ''UserID''] (Node 4 []) None]
     [\<lparr>Tag = str ''json'', Case = str ''snake''\<rparr>] False =
   Inr ([], [Field_ast [str ''UserID''] (Node 4 [])
     (Some \<lparr>ValuePos = 5, Kind = STRING, Value = str ''`json:\"user_id\"`''\<rparr>)])"
proof -
  let ?t = "Node 0 [Node 1 [], Node 2 [StructType 3 [Field_ast [str ''UserID''] (Node 4 []) None]]]"
  let ?tags = "[\<lparr>Tag = str ''json'', Case = str ''snake''\<rparr>]"
  have c: "child_at [1, 0] ?t = Some (StructType 3 [Field_ast [str ''UserID''] (Node 4 []) None])"
    by simp
  have l: "\<forall>r \<in> set ?tags. literal_name (Tag r)"
    by (simp add: literal_name_def regexp_special_def str_def)
  have a: "plain_tree ?t"
    by (simp add: str_def ascii_first_def MaxASCII_def)
  have i: "Inspect fast_paths_only False ?tags False ?t =
   Inr ([], Node 0 [Node 1 [], Node 2 [StructType 3 [Field_ast [str ''UserID''] (Node 4 [])
     (Some \<lparr>ValuePos = 5, Kind = STRING, Value = str ''`json:\"user_id\"`''\<rparr>)]]])"
    by (simp add: eval_defs field_defs)
  from Inspect_rewrites_outer_structs [OF c l, of fast_paths_only False False] a i c
  show ?thesis
    by (simp add: eval_defs field_defs)
qed

text \<open>
  A struct type inside a field of a struct type is not visited: the field \<open>B\<close> of the inner
  struct keeps no tag, where the rewriter would have given it one.
\<close>

theorem nested_struct_counterexample:
  "Inspect fast_paths_only False [\<lparr>Tag = str ''json'', Case = str ''snake''\<rparr>] False
     (StructType 1 [Field_ast [str ''A'']
        (StructType 2 [Field_ast [str ''B''] (Node 3 []) None]) None]) =
   Inr ([], StructType 1 [Field_ast [str ''A'']
        (StructType 2 [Field_ast [str ''B''] (Node 3 []) None])
        (Some \<lparr>ValuePos = 3, Kind = STRING, Value = str ''`json:\"a\"`''\<rparr>)]) \<and>
   processTags fast_paths_only False [Field_ast [str ''B''] (Node 3 []) None]
     [\<lparr>Tag = str ''json'', Case = str ''snake''\<rparr>] False =
   Inr ([], [Field_ast [str ''B''] (Node 3 [])
        (Some \<lparr>ValuePos = 4, Kind = STRING, Value = str ''`json:\"b\"`''\<rparr>)])"
  by (simp add: eval_defs field_defs)





end
